theory Spec2Isabelle
  imports Main
begin

section \<open>Python primitives used by \<open>surface_code.py\<close>\<close>

text \<open>
  Python integers are unbounded, so the distance \<open>d\<close>, the lattice coordinates and the
  qubit indices are \<open>int\<close>. Python's \<open>%\<close> with a positive modulus is the floor remainder,
  which is \<open>mod\<close> on \<open>int\<close> (in particular \<open>(-1) % 2 = 1\<close>).
\<close>

datatype error = IndexError | ValueError | OverflowError | CircuitError

text \<open>\<open>range(a, b)\<close> as the list it iterates over, and the test \<open>x in range(n)\<close>.\<close>

definition py_range :: "int \<Rightarrow> int \<Rightarrow> int list" where
  "py_range a b = [a..b - 1]"

definition in_range :: "int \<Rightarrow> int \<Rightarrow> bool" where
  "in_range x n = (0 \<le> x \<and> x < n)"

text \<open>Indexing a sequence: a negative index counts from the end, out of range raises.\<close>

definition py_index :: "'a list \<Rightarrow> int \<Rightarrow> error + 'a" where
  "py_index xs i =
     (let n = int (length xs); k = (if i < 0 then i + n else i)
      in if 0 \<le> k \<and> k < n then Inr (xs ! nat k) else Inl IndexError)"

section \<open>The plaquette layout: \<open>_get_plaquettes\<close>\<close>

text \<open>A plaquette is a list of four slots, each a qubit index or \<open>None\<close>.\<close>

type_synonym plaquette = "int option list"

text \<open>
  One pass of the innermost body (source lines 135-138): the slot for the corner
  \<open>(x + dx, y + dy)\<close>.
\<close>

definition corner :: "int \<Rightarrow> int \<Rightarrow> int \<Rightarrow> int \<Rightarrow> int \<Rightarrow> int option" where
  "corner d x y dy dx =
     (if in_range (x + dx) d \<and> in_range (y + dy) d
      then Some (x + dx + d * (y + dy)) else None)"

text \<open>The two loops over \<open>dy\<close> and \<open>dx\<close> (lines 132-138), appending to \<open>plaq\<close>.\<close>

definition build_plaq :: "int \<Rightarrow> int \<Rightarrow> int \<Rightarrow> plaquette" where
  "build_plaq d x y =
     foldl (\<lambda>plaq dy. foldl (\<lambda>plaq dx. plaq @ [corner d x y dy dx]) plaq (py_range 0 2))
       [] (py_range 0 2)"

text \<open>The guard of line 131, from \<open>bulk\<close>, \<open>ztab\<close> and \<open>xtab\<close> of lines 127-129.\<close>

definition seeds :: "int \<Rightarrow> int \<Rightarrow> int \<Rightarrow> bool" where
  "seeds d x y =
     (let bulk = (in_range x (d - 1) \<and> in_range y (d - 1));
          ztab = ((x = -1 \<and> y mod 2 = 0) \<or> (x = d - 1 \<and> y mod 2 = 1));
          xtab = ((y = -1 \<and> x mod 2 = 1) \<or> (y = d - 1 \<and> x mod 2 = 0))
      in (in_range x (d - 1) \<or> in_range y (d - 1)) \<and> (bulk \<or> ztab \<or> xtab))"

text \<open>
  The body of the loop over \<open>x\<close> (lines 127-143) as a step on the pair
  \<open>(zplaqs, xplaqs)\<close>. The slots \<open>plaq[0..3]\<close> always exist: \<open>build_plaq\<close> appends
  exactly four.
\<close>

definition plaq_step :: "int \<Rightarrow> int \<Rightarrow> plaquette list \<times> plaquette list \<Rightarrow> int
    \<Rightarrow> plaquette list \<times> plaquette list" where
  "plaq_step d y acc x =
     (if seeds d x y then
        (let plaq = build_plaq d x y in
         if (x + y) mod 2 = 0
         then (fst acc, snd acc @ [[plaq ! 0, plaq ! 1, plaq ! 2, plaq ! 3]])
         else (fst acc @ [[plaq ! 0, plaq ! 2, plaq ! 1, plaq ! 3]], snd acc))
      else acc)"

text \<open>\<open>_get_plaquettes\<close> returns \<open>(zplaqs, xplaqs)\<close>.\<close>

definition get_plaquettes :: "int \<Rightarrow> plaquette list \<times> plaquette list" where
  "get_plaquettes d =
     foldl (\<lambda>acc y. foldl (plaq_step d y) acc (py_range (-1) d)) ([], []) (py_range (-1) d)"

text \<open>
  The four logical supports built in \<open>__init__\<close> (lines 63-69):
  \<open>_logicals["x"] = [left, right]\<close> and \<open>_logicals["z"] = [top, bottom]\<close>.
\<close>

definition logicals_x :: "int \<Rightarrow> int list list" where
  "logicals_x d =
     [map (\<lambda>j. j * d) (py_range 0 d), map (\<lambda>j. (j + 1) * d - 1) (py_range 0 d)]"

definition logicals_z :: "int \<Rightarrow> int list list" where
  "logicals_z d =
     [map (\<lambda>j. j) (py_range 0 d), map (\<lambda>j. d ^ 2 - 1 - j) (py_range 0 d)]"

text \<open>
  \<open>int(n / 2)\<close> on a Python integer \<open>n\<close>. The true division \<open>/\<close> of two integers gives
  the double nearest to the exact quotient, ties to even, and raises \<open>OverflowError\<close>
  when that is beyond the range of a double; \<open>int\<close> then truncates towards zero. A
  double has 53 significant bits, so halving is exact for \<open>|n| < 2\<^sup>5\<^sup>3\<close>; a larger \<open>n\<close> is
  first rounded to 53 significant bits, and its half is then an integer.
\<close>

function bit_length :: "int \<Rightarrow> nat" where
  "bit_length n = (if n \<le> 0 then 0 else Suc (bit_length (n div 2)))"
  by pat_completeness auto
termination
  by (relation "measure nat") auto

declare bit_length.simps [simp del]

definition round_to_double :: "int \<Rightarrow> int" where
  "round_to_double n =
     (if n < 2 ^ 53 then n
      else (let s = bit_length n - 53;
                m = n div 2 ^ s;
                r = n mod 2 ^ s
            in (if 2 ^ s < 2 * r \<or> (2 * r = 2 ^ s \<and> odd m) then m + 1 else m) * 2 ^ s))"

definition int_half :: "int \<Rightarrow> error + int" where
  "int_half n =
     (let q = round_to_double \<bar>n\<bar> in
      if 2 ^ 1025 \<le> q then Inl OverflowError
      else Inr (if n < 0 then - (q div 2) else q div 2))"

text \<open>\<open>int((d**2 - 1) / 2)\<close>: \<open>self._num_xy\<close> of line 84 and \<open>num_bits\<close> of line 210.\<close>

definition num_xy :: "int \<Rightarrow> error + int" where
  "num_xy d = int_half (d ^ 2 - 1)"

section \<open>The code object\<close>

text \<open>
  The attributes of a \<open>SurfaceCodeCircuit\<close> that the decoding methods read:
  \<open>self.d\<close>, \<open>self.T\<close>, \<open>self.basis\<close>, \<open>self._resets\<close>, \<open>self.zplaqs\<close> and
  \<open>self.xplaqs\<close>.
\<close>

record SurfaceCodeCircuit =
  self_d :: int
  self_T :: int
  self_basis :: string
  self_resets :: bool
  self_zplaqs :: "plaquette list"
  self_xplaqs :: "plaquette list"

text \<open>
  The layout attributes are assigned once, in \<open>__init__\<close> (line 61), from
  \<open>_get_plaquettes\<close>, and never changed afterwards.
\<close>

definition laid_out :: "SurfaceCodeCircuit \<Rightarrow> bool" where
  "laid_out self =
     (1 \<le> self_d self \<and> self_zplaqs self = fst (get_plaquettes (self_d self))
      \<and> self_xplaqs self = snd (get_plaquettes (self_d self)))"

text \<open>
  These attributes after \<open>__init__(d, T, basis, resets)\<close> has returned: lines 55-61
  store the arguments and the layout, and \<open>self.T\<close>, set to 0 in line 56, has been
  incremented once by each of the \<open>T\<close> calls of \<open>syndrome_measurement\<close>.
\<close>

definition new_code :: "int \<Rightarrow> int \<Rightarrow> string \<Rightarrow> bool \<Rightarrow> SurfaceCodeCircuit" where
  "new_code d T basis resets =
     \<lparr>self_d = d, self_T = T, self_basis = basis, self_resets = resets,
      self_zplaqs = fst (get_plaquettes d), self_xplaqs = snd (get_plaquettes d)\<rparr>"

section \<open>String primitives\<close>

text \<open>\<open>s.split(" ")\<close>: the fields between single spaces; never the empty list.\<close>

fun split_sp :: "string \<Rightarrow> string list" where
  "split_sp [] = [[]]"
| "split_sp (c # cs) =
     (if c = CHR '' '' then [] # split_sp cs
      else (case split_sp cs of
              w # ws \<Rightarrow> (c # w) # ws
            | [] \<Rightarrow> [[c]]))"

text \<open>\<open>" ".join(fields)\<close>.\<close>

fun join_sp :: "string list \<Rightarrow> string" where
  "join_sp [] = []"
| "join_sp [f] = f"
| "join_sp (f # g # fs) = f @ '' '' @ join_sp (g # fs)"

text \<open>The slice \<open>xs[0::2]\<close>; then \<open>xs[k::2]\<close> is \<open>every_second (drop k xs)\<close>.\<close>

fun every_second :: "'a list \<Rightarrow> 'a list" where
  "every_second [] = []"
| "every_second [x] = [x]"
| "every_second (x # y # zs) = x # every_second zs"

text \<open>\<open>int(c)\<close> for a one-character string: a decimal digit, or \<open>ValueError\<close>.\<close>

definition int_of_char :: "char \<Rightarrow> error + int" where
  "int_of_char c =
     (let n = (of_char c :: nat) in
      if 48 \<le> n \<and> n \<le> 57 then Inr (int n - 48) else Inl ValueError)"

text \<open>\<open>str(n)\<close> for the values \<open>0\<close> and \<open>1\<close> that \<open>% 2\<close> yields.\<close>

definition str_bit :: "int \<Rightarrow> string" where
  "str_bit n = (if n = 0 then ''0'' else ''1'')"

text \<open>\<open>"0" * (not change) + "1" * change\<close>.\<close>

definition change_str :: "bool \<Rightarrow> string" where
  "change_str change = (if change then ''1'' else ''0'')"

text \<open>A loop whose body may raise: the first error ends it.\<close>

fun efoldl :: "('b \<Rightarrow> 'a \<Rightarrow> error + 'b) \<Rightarrow> 'b \<Rightarrow> 'a list \<Rightarrow> error + 'b" where
  "efoldl f acc [] = Inr acc"
| "efoldl f acc (x # xs) = (case f acc x of Inl e \<Rightarrow> Inl e | Inr acc' \<Rightarrow> efoldl f acc' xs)"

text \<open>\<open>rows[i][j]\<close> on a list of sequences.\<close>

definition cell :: "'a list list \<Rightarrow> int \<Rightarrow> int \<Rightarrow> error + 'a" where
  "cell rows i j = (case py_index rows i of Inl e \<Rightarrow> Inl e | Inr row \<Rightarrow> py_index row j)"

section \<open>\<open>_string2changes\<close>\<close>

text \<open>Lines 277-280: the parity of the readout bits on the present slots of a plaquette.\<close>

definition plaq_parity :: "string \<Rightarrow> plaquette \<Rightarrow> error + int" where
  "plaq_parity final_readout plaq =
     efoldl (\<lambda>parity q. case q of
                None \<Rightarrow> Inr parity
              | Some q' \<Rightarrow> (case py_index final_readout q' of
                    Inl e \<Rightarrow> Inl e
                  | Inr c \<Rightarrow> (case int_of_char c of
                        Inl e \<Rightarrow> Inl e
                      | Inr b \<Rightarrow> Inr (parity + b))))
       0 plaq"

text \<open>Lines 275-281: the final syndrome, each new bit put in front.\<close>

definition final_syndrome :: "string \<Rightarrow> plaquette list \<Rightarrow> error + string" where
  "final_syndrome final_readout plaqs =
     efoldl (\<lambda>full_syndrome plaq. case plaq_parity final_readout plaq of
                Inl e \<Rightarrow> Inl e
              | Inr parity \<Rightarrow> Inr (str_bit (parity mod 2) @ full_syndrome))
       [] plaqs"

text \<open>Lines 271-274: the plaquettes inspected.\<close>

definition inspected_plaqs :: "SurfaceCodeCircuit \<Rightarrow> plaquette list" where
  "inspected_plaqs self =
     (let basis = self_basis self in
      if basis = ''z'' then self_zplaqs self else self_xplaqs self)"

text \<open>Lines 284-287: the ancilla fields of the inspected basis.\<close>

definition ancilla_fields :: "SurfaceCodeCircuit \<Rightarrow> string \<Rightarrow> string list" where
  "ancilla_fields self string =
     (let basis = self_basis self in
      if basis = ''z'' then every_second (drop 2 (split_sp string))
      else every_second (drop 1 (split_sp string)))"

text \<open>Lines 270-290: \<open>syndrome_list\<close>.\<close>

definition syndrome_list :: "SurfaceCodeCircuit \<Rightarrow> string \<Rightarrow> error + string list" where
  "syndrome_list self string =
     (let final_readout = rev (hd (split_sp string)) in
      case final_syndrome final_readout (inspected_plaqs self) of
        Inl e \<Rightarrow> Inl e
      | Inr full_syndrome \<Rightarrow>
          Inr (split_sp (full_syndrome @ '' '' @ join_sp (ancilla_fields self string))))"

text \<open>Lines 309-312: \<open>last3\<close> and the parity of its count of ones.\<close>

definition last3_change :: "string list \<Rightarrow> int \<Rightarrow> int \<Rightarrow> error + bool" where
  "last3_change rows t j =
     (case efoldl (\<lambda>last3 dt. case cell rows (- t - 1 + dt) j of
                        Inl e \<Rightarrow> Inl e
                      | Inr c \<Rightarrow> Inr (last3 @ [c]))
             [] (py_range 0 3) of
        Inl e \<Rightarrow> Inl e
      | Inr last3 \<Rightarrow> Inr (int (count_list last3 CHR ''1'') mod 2 = 1))"

text \<open>\<open>a != b\<close> on two cells, the left one read first.\<close>

definition cells_differ :: "string list \<Rightarrow> int \<Rightarrow> int \<Rightarrow> int \<Rightarrow> error + bool" where
  "cells_differ rows i i' j =
     (case cell rows i j of
        Inl e \<Rightarrow> Inl e
      | Inr a \<Rightarrow> (case cell rows i' j of Inl e \<Rightarrow> Inl e | Inr b \<Rightarrow> Inr (a \<noteq> b)))"

definition cell_nonzero :: "string list \<Rightarrow> int \<Rightarrow> int \<Rightarrow> error + bool" where
  "cell_nonzero rows i j =
     (case cell rows i j of Inl e \<Rightarrow> Inl e | Inr a \<Rightarrow> Inr (a \<noteq> CHR ''0''))"

text \<open>Lines 296-314: \<open>change\<close> for round \<open>t\<close> and stabilizer \<open>j\<close>.\<close>

definition change_at :: "SurfaceCodeCircuit \<Rightarrow> string list \<Rightarrow> int \<Rightarrow> int \<Rightarrow> error + bool" where
  "change_at self rows t j =
     (if self_resets self then
        (if t = 0 then cell_nonzero rows (- 1) j
         else cells_differ rows (- t) (- t - 1) j)
      else
        (if t \<le> 1 then
           (if t \<noteq> self_T self then cell_nonzero rows (- t - 1) j
            else cells_differ rows (- t - 1) (- t) j)
         else if t = self_T self then last3_change rows t j
         else cells_differ rows (- t - 1) (- t + 1) j))"

text \<open>
  Lines 291-317: the two loops that write \<open>syndrome_changes\<close>, and the removal of the
  last space. \<open>syndrome_list[0]\<close> exists, since \<open>split\<close> never returns the empty list.
\<close>

definition changes_of :: "SurfaceCodeCircuit \<Rightarrow> string list \<Rightarrow> error + string" where
  "changes_of self rows =
     (let height = int (length rows);
          width = int (length (hd rows)) in
      case efoldl (\<lambda>syndrome_changes t.
                case efoldl (\<lambda>syndrome_changes j.
                          case change_at self rows t j of
                            Inl e \<Rightarrow> Inl e
                          | Inr change \<Rightarrow> Inr (syndrome_changes @ change_str change))
                       syndrome_changes (py_range 0 width) of
                  Inl e \<Rightarrow> Inl e
                | Inr syndrome_changes' \<Rightarrow> Inr (syndrome_changes' @ '' ''))
             [] (py_range 0 height) of
        Inl e \<Rightarrow> Inl e
      | Inr syndrome_changes \<Rightarrow> Inr (butlast syndrome_changes))"

text \<open>
  Line 319, \<open>if basis != self.basis\<close>, where the local \<open>basis\<close> is the one assigned in
  line 267, \<open>basis = self.basis\<close>.
\<close>

definition trims :: "SurfaceCodeCircuit \<Rightarrow> bool" where
  "trims self = (let basis = self_basis self in basis \<noteq> self_basis self)"

text \<open>The whole method; lines 319-321 drop the first and the last round.\<close>

definition string2changes :: "SurfaceCodeCircuit \<Rightarrow> string \<Rightarrow> error + string" where
  "string2changes self string =
     (case syndrome_list self string of
        Inl e \<Rightarrow> Inl e
      | Inr rows \<Rightarrow>
          (case changes_of self rows of
             Inl e \<Rightarrow> Inl e
           | Inr syndrome_changes \<Rightarrow>
               if trims self
               then Inr (join_sp (butlast (drop 1 (split_sp syndrome_changes))))
               else Inr syndrome_changes))"

section \<open>\<open>string2raw_logicals\<close>\<close>

text \<open>\<open>(z + int(final_readout[i])) % 2\<close>.\<close>

definition add_bit :: "int \<Rightarrow> string \<Rightarrow> int \<Rightarrow> error + int" where
  "add_bit z final_readout i =
     (case py_index final_readout i of
        Inl e \<Rightarrow> Inl e
      | Inr c \<Rightarrow> (case int_of_char c of Inl e \<Rightarrow> Inl e | Inr b \<Rightarrow> Inr ((z + b) mod 2)))"

text \<open>Lines 338-347: the body of the loop over \<open>j\<close> on the pair \<open>(Z[0], Z[1])\<close>.\<close>

definition logical_step :: "SurfaceCodeCircuit \<Rightarrow> string \<Rightarrow> int \<times> int \<Rightarrow> int \<Rightarrow> error + int \<times> int" where
  "logical_step self final_readout Z j =
     (let d = self_d self in
      if self_basis self = ''z'' then
        (case add_bit (fst Z) final_readout j of
           Inl e \<Rightarrow> Inl e
         | Inr z0 \<Rightarrow> (case add_bit (snd Z) final_readout (d ^ 2 - 1 - j) of
               Inl e \<Rightarrow> Inl e
             | Inr z1 \<Rightarrow> Inr (z0, z1)))
      else
        (case add_bit (fst Z) final_readout (j * d) of
           Inl e \<Rightarrow> Inl e
         | Inr z0 \<Rightarrow> (case add_bit (snd Z) final_readout ((j + 1) * d - 1) of
               Inl e \<Rightarrow> Inl e
             | Inr z1 \<Rightarrow> Inr (z0, z1))))"

definition string2raw_logicals :: "SurfaceCodeCircuit \<Rightarrow> string \<Rightarrow> error + string" where
  "string2raw_logicals self string =
     (let final_readout = rev (hd (split_sp string)) in
      case efoldl (logical_step self final_readout) (0, 0) (py_range 0 (self_d self)) of
        Inl e \<Rightarrow> Inl e
      | Inr Z \<Rightarrow> Inr (str_bit (fst Z) @ '' '' @ str_bit (snd Z)))"

section \<open>Construction: \<open>__init__\<close> and the circuit it emits\<close>

text \<open>
  The circuit builder is an external collaborator: it allocates registers and appends
  instructions. A register is the list of its bits, a bit is the name of its register
  with an index, and each of the two circuits is the list of the instructions appended
  to it. Indexing a register is indexing a Python list and raises out of range; a gate
  applied to a whole register goes to each of its qubits, and the builder raises its
  \<open>CircuitError\<close> when the register is empty.
\<close>

datatype register_name =
  CodeQubit | ZPlaqQubit | XPlaqQubit | CodeBit | RoundZPlaqBit int | RoundXPlaqBit int

type_synonym bitref = "register_name \<times> int"

datatype instr =
  Hgate bitref | Xgate bitref | Zgate bitref | CXgate bitref bitref
  | Measure bitref bitref | Reset bitref | AddRegister register_name

text \<open>\<open>QuantumRegister(n, name)\<close> and \<open>ClassicalRegister(n, name)\<close>.\<close>

definition new_register :: "int \<Rightarrow> register_name \<Rightarrow> bitref list" where
  "new_register n name = map (\<lambda>i. (name, i)) (py_range 0 n)"

text \<open>
  What \<open>__init__\<close> and \<open>syndrome_measurement\<close> keep besides the attributes of
  \<open>SurfaceCodeCircuit\<close>: \<open>self._num_xy\<close>, the lists \<open>self.xplaq_bits\<close> and
  \<open>self.zplaq_bits\<close> of the classical registers of each round, and the two circuits
  \<open>self.circuit["0"]\<close> and \<open>self.circuit["1"]\<close>.
\<close>

record emitter =
  num_xy_reg :: int
  xplaq_bits :: "bitref list list"
  zplaq_bits :: "bitref list list"
  circuit_0 :: "instr list"
  circuit_1 :: "instr list"

text \<open>Lines 85-87: the three quantum registers; line 93: the final classical register.\<close>

definition code_qubit :: "SurfaceCodeCircuit \<Rightarrow> bitref list" where
  "code_qubit self = new_register ((self_d self) ^ 2) CodeQubit"

definition zplaq_qubit :: "emitter \<Rightarrow> bitref list" where
  "zplaq_qubit em = new_register (num_xy_reg em) ZPlaqQubit"

definition xplaq_qubit :: "emitter \<Rightarrow> bitref list" where
  "xplaq_qubit em = new_register (num_xy_reg em) XPlaqQubit"

definition code_bit :: "SurfaceCodeCircuit \<Rightarrow> bitref list" where
  "code_bit self = new_register ((self_d self) ^ 2) CodeBit"

text \<open>\<open>self.circuit[log]\<close> gets instructions appended, for \<open>log\<close> one of \<open>"0"\<close>, \<open>"1"\<close>.\<close>

definition emit :: "string \<Rightarrow> instr list \<Rightarrow> emitter \<Rightarrow> emitter" where
  "emit log gates em =
     (if log = ''0'' then em\<lparr>circuit_0 := circuit_0 em @ gates\<rparr>
      else em\<lparr>circuit_1 := circuit_1 em @ gates\<rparr>)"

text \<open>\<open>self.circuit[log].h(register)\<close>: the gates it appends, or the builder's error.\<close>

definition on_register :: "(bitref \<Rightarrow> instr) \<Rightarrow> bitref list \<Rightarrow> error + instr list" where
  "on_register gate reg = (if reg = [] then Inl CircuitError else Inr (map gate reg))"

text \<open>The methods \<open>x\<close> and \<open>z\<close> (lines 169-197), called without a barrier.\<close>

definition logical_x :: "SurfaceCodeCircuit \<Rightarrow> string list \<Rightarrow> emitter \<Rightarrow> error + emitter" where
  "logical_x self logs em =
     efoldl (\<lambda>em log.
          efoldl (\<lambda>em j. case py_index (code_qubit self) (j * self_d self) of
                       Inl e \<Rightarrow> Inl e
                     | Inr q \<Rightarrow> Inr (emit log [Xgate q] em))
            em (py_range 0 (self_d self)))
       em logs"

definition logical_z :: "SurfaceCodeCircuit \<Rightarrow> string list \<Rightarrow> emitter \<Rightarrow> error + emitter" where
  "logical_z self logs em =
     efoldl (\<lambda>em log.
          efoldl (\<lambda>em j. case py_index (code_qubit self) j of
                       Inl e \<Rightarrow> Inl e
                     | Inr q \<Rightarrow> Inr (emit log [Zgate q] em))
            em (py_range 0 (self_d self)))
       em logs"

text \<open>
  \<open>_preparation\<close> (lines 147-157): the test is \<open>basis == "z"\<close>, and every other string
  takes the \<open>else\<close> branch.
\<close>

definition preparation :: "SurfaceCodeCircuit \<Rightarrow> emitter \<Rightarrow> error + emitter" where
  "preparation self em =
     (if self_basis self = ''z'' then logical_x self [''1''] em
      else (case efoldl (\<lambda>em log. case on_register Hgate (code_qubit self) of
                              Inl e \<Rightarrow> Inl e
                            | Inr gates \<Rightarrow> Inr (emit log gates em))
                   em [''0'', ''1''] of
              Inl e \<Rightarrow> Inl e
            | Inr em' \<Rightarrow> logical_z self [''1''] em'))"

text \<open>
  Lines 230-237 for one slot \<open>j\<close>: a controlled gate for every plaquette with a qubit in
  that slot, first the Z-plaquettes, then the X-plaquettes.
\<close>

definition cx_layer :: "SurfaceCodeCircuit \<Rightarrow> emitter \<Rightarrow> instr list \<Rightarrow> int \<Rightarrow> error + instr list" where
  "cx_layer self em gates j =
     (case efoldl (\<lambda>gates (p, plaq). case py_index plaq j of
                       Inl e \<Rightarrow> Inl e
                     | Inr None \<Rightarrow> Inr gates
                     | Inr (Some c) \<Rightarrow> (case py_index (code_qubit self) c of
                           Inl e \<Rightarrow> Inl e
                         | Inr q \<Rightarrow> (case py_index (zplaq_qubit em) (int p) of
                               Inl e \<Rightarrow> Inl e
                             | Inr a \<Rightarrow> Inr (gates @ [CXgate q a]))))
             gates (enumerate 0 (self_zplaqs self)) of
        Inl e \<Rightarrow> Inl e
      | Inr gates' \<Rightarrow>
          efoldl (\<lambda>gates (p, plaq). case py_index plaq j of
                       Inl e \<Rightarrow> Inl e
                     | Inr None \<Rightarrow> Inr gates
                     | Inr (Some c) \<Rightarrow> (case py_index (xplaq_qubit em) (int p) of
                           Inl e \<Rightarrow> Inl e
                         | Inr a \<Rightarrow> (case py_index (code_qubit self) c of
                               Inl e \<Rightarrow> Inl e
                             | Inr q \<Rightarrow> Inr (gates @ [CXgate a q]))))
            gates' (enumerate 0 (self_xplaqs self)))"

text \<open>Lines 241-246 for one \<open>j\<close>: the two measurements and, if asked for, the resets.\<close>

definition measure_step :: "SurfaceCodeCircuit \<Rightarrow> emitter \<Rightarrow> bool \<Rightarrow> instr list \<Rightarrow> int
    \<Rightarrow> error + instr list" where
  "measure_step self em final gates j =
     (case py_index (xplaq_qubit em) j of
        Inl e \<Rightarrow> Inl e
      | Inr xq \<Rightarrow> (case cell (xplaq_bits em) (self_T self) j of
            Inl e \<Rightarrow> Inl e
          | Inr xb \<Rightarrow> (case py_index (zplaq_qubit em) j of
                Inl e \<Rightarrow> Inl e
              | Inr zq \<Rightarrow> (case cell (zplaq_bits em) (self_T self) j of
                    Inl e \<Rightarrow> Inl e
                  | Inr zb \<Rightarrow>
                      Inr (gates @ [Measure xq xb, Measure zq zb]
                             @ (if self_resets self \<and> \<not> final then [Reset xq, Reset zq]
                                else []))))))"

text \<open>Lines 224-246: what one pass of the loop over \<open>log\<close> appends to its circuit.\<close>

definition round_gates :: "SurfaceCodeCircuit \<Rightarrow> emitter \<Rightarrow> bool \<Rightarrow> error + instr list" where
  "round_gates self em final =
     (case on_register Hgate (xplaq_qubit em) of
        Inl e \<Rightarrow> Inl e
      | Inr h1 \<Rightarrow>
          (case efoldl (cx_layer self em)
                  ([AddRegister (RoundZPlaqBit (self_T self)),
                    AddRegister (RoundXPlaqBit (self_T self))] @ h1)
                  (py_range 0 4) of
             Inl e \<Rightarrow> Inl e
           | Inr gates \<Rightarrow>
               (case on_register Hgate (xplaq_qubit em) of
                  Inl e \<Rightarrow> Inl e
                | Inr h2 \<Rightarrow>
                    efoldl (measure_step self em final) (gates @ h2)
                      (py_range 0 (num_xy_reg em)))))"

text \<open>
  \<open>syndrome_measurement\<close> (lines 199-251), called without a barrier, on the pair of the
  object and its registers and circuits. Line 210 computes \<open>num_bits\<close>, which nothing
  reads; lines 215-220 append the two classical registers of the round.
\<close>

definition syndrome_measurement :: "SurfaceCodeCircuit \<times> emitter \<Rightarrow> bool
    \<Rightarrow> error + SurfaceCodeCircuit \<times> emitter" where
  "syndrome_measurement st final =
     (let self = fst st in
      case num_xy (self_d self) of
        Inl e \<Rightarrow> Inl e
      | Inr num_bits \<Rightarrow>
          (let em = (snd st)\<lparr>
                 zplaq_bits := zplaq_bits (snd st)
                    @ [new_register (num_xy_reg (snd st)) (RoundZPlaqBit (self_T self))],
                 xplaq_bits := xplaq_bits (snd st)
                    @ [new_register (num_xy_reg (snd st)) (RoundXPlaqBit (self_T self))]\<rparr> in
           case efoldl (\<lambda>em log. case round_gates self em final of
                             Inl e \<Rightarrow> Inl e
                           | Inr gates \<Rightarrow> Inr (emit log gates em))
                  em [''0'', ''1''] of
             Inl e \<Rightarrow> Inl e
           | Inr em' \<Rightarrow> Inr (self\<lparr>self_T := self_T self + 1\<rparr>, em')))"

text \<open>
  \<open>readout\<close> (lines 253-263); here the test is \<open>basis == "x"\<close>. The two registers of the
  measurement have the same size, so each code qubit is measured into its own bit.
\<close>

definition readout :: "SurfaceCodeCircuit \<Rightarrow> emitter \<Rightarrow> error + emitter" where
  "readout self em =
     efoldl (\<lambda>em log.
          case (if self_basis self = ''x'' then on_register Hgate (code_qubit self)
                else Inr []) of
            Inl e \<Rightarrow> Inl e
          | Inr h \<Rightarrow>
              Inr (emit log (h @ [AddRegister CodeBit]
                     @ map (\<lambda>(q, b). Measure q b) (zip (code_qubit self) (code_bit self))) em))
       em [''0'', ''1'']"

text \<open>
  Lines 103-110 of \<open>__init__\<close>: the preparation, \<open>T - 1\<close> rounds, and for \<open>T != 0\<close> the
  final round and the readout.
\<close>

definition build_circuits :: "SurfaceCodeCircuit \<Rightarrow> int \<Rightarrow> emitter
    \<Rightarrow> error + SurfaceCodeCircuit \<times> emitter" where
  "build_circuits self T em =
     (case preparation self em of
        Inl e \<Rightarrow> Inl e
      | Inr em1 \<Rightarrow>
          (case efoldl (\<lambda>st _. syndrome_measurement st False) (self, em1) (py_range 0 (T - 1)) of
             Inl e \<Rightarrow> Inl e
           | Inr st \<Rightarrow>
               if T \<noteq> 0 then
                 (case syndrome_measurement st True of
                    Inl e \<Rightarrow> Inl e
                  | Inr st' \<Rightarrow>
                      (case readout (fst st') (snd st') of
                         Inl e \<Rightarrow> Inl e
                       | Inr em' \<Rightarrow> Inr (fst st', em')))
               else Inr st))"

text \<open>
  \<open>__init__\<close> (lines 55-110). Lines 55-81 store the arguments and the layout; the
  attributes \<open>_logicals\<close> and \<open>css_*\<close> are assigned from \<open>d\<close> and the layout and used by
  nothing below. Line 84 computes \<open>_num_xy\<close>, lines 85-100 allocate the registers and
  the two circuits. No statement of the constructor tests \<open>d\<close>, \<open>T\<close> or \<open>basis\<close>.
\<close>

definition init :: "int \<Rightarrow> int \<Rightarrow> string \<Rightarrow> bool \<Rightarrow> error + SurfaceCodeCircuit \<times> emitter" where
  "init d T basis resets =
     (let self = \<lparr>self_d = d, self_T = 0, self_basis = basis, self_resets = resets,
                  self_zplaqs = fst (get_plaquettes d), self_xplaqs = snd (get_plaquettes d)\<rparr>
      in case num_xy d of
           Inl e \<Rightarrow> Inl e
         | Inr n \<Rightarrow>
             build_circuits self T
               \<lparr>num_xy_reg = n, xplaq_bits = [], zplaq_bits = [],
                circuit_0 = [], circuit_1 = []\<rparr>)"

section \<open>Notions used to state the properties\<close>

text \<open>The lattice coordinates in the order the two outer loops visit them.\<close>

definition coords :: "int \<Rightarrow> (int \<times> int) list" where
  "coords d = concat (map (\<lambda>y. map (\<lambda>x. (x, y)) (py_range (-1) d)) (py_range (-1) d))"

text \<open>The row-major 2x2 block seeded at \<open>(x, y)\<close>, and a permutation of its slots.\<close>

definition block2x2 :: "int \<Rightarrow> int \<Rightarrow> int \<Rightarrow> plaquette" where
  "block2x2 d x y = [corner d x y 0 0, corner d x y 0 1, corner d x y 1 0, corner d x y 1 1]"

definition permuted :: "nat list \<Rightarrow> 'a list \<Rightarrow> 'a list" where
  "permuted p xs = map (\<lambda>i. xs ! i) p"

text \<open>A field of a shot string made of the characters \<open>0\<close> and \<open>1\<close> only.\<close>

definition binary :: "string \<Rightarrow> bool" where
  "binary f = list_all (\<lambda>c. c = CHR ''0'' \<or> c = CHR ''1'') f"

text \<open>
  A well-formed shot string for a code object: one final-readout field of \<open>d\<^sup>2\<close> bits
  followed by \<open>2T\<close> ancilla fields, those of the inspected basis having one bit per
  inspected plaquette. There is at least one round: with \<open>T = 0\<close> the constructor adds
  no measurement at all (docstring of \<open>__init__\<close>), so no shot string exists.
\<close>

definition wellformed_shot :: "SurfaceCodeCircuit \<Rightarrow> string \<Rightarrow> bool" where
  "wellformed_shot self string =
     (let flds = split_sp string in
      1 \<le> self_T self \<and> int (length flds) = 2 * self_T self + 1
      \<and> int (length (hd flds)) = (self_d self) ^ 2 \<and> binary (hd flds)
      \<and> list_all (\<lambda>f. length f = length (inspected_plaqs self) \<and> binary f)
           (ancilla_fields self string))"

text \<open>The bit that \<open>int\<close> reads from a character of a binary field.\<close>

definition bit_of :: "char \<Rightarrow> int" where
  "bit_of c = (if c = CHR ''1'' then 1 else 0)"

text \<open>
  The detection record as a list of round-strings, read off the syndrome list: the
  character for round \<open>t\<close> and stabilizer \<open>j\<close> is \<open>1\<close> when \<open>change\<close> is true.
\<close>

definition detection_rows :: "SurfaceCodeCircuit \<Rightarrow> string list \<Rightarrow> string list" where
  "detection_rows self rows =
     map (\<lambda>t. map (\<lambda>j. if projr (change_at self rows t j) then CHR ''1'' else CHR ''0'')
                 (py_range 0 (int (length (hd rows)))))
       (py_range 0 (int (length rows)))"

text \<open>The plaquettes of the basis opposite to the preparation basis.\<close>

definition opposite_plaqs :: "SurfaceCodeCircuit \<Rightarrow> plaquette list" where
  "opposite_plaqs self =
     (if self_basis self = ''z'' then self_xplaqs self else self_zplaqs self)"

section \<open>Facts about the layout\<close>

lemma build_plaq_eq:
  "build_plaq d x y = [corner d x y 0 0, corner d x y 0 1, corner d x y 1 0, corner d x y 1 1]"
  by (simp add: build_plaq_def py_range_def upto_rec1)

lemma foldl_plaq_step:
  "foldl (plaq_step d y) (zp, xp) xs =
     (zp @ map (\<lambda>x. [corner d x y 0 0, corner d x y 1 0, corner d x y 0 1, corner d x y 1 1])
            (filter (\<lambda>x. seeds d x y \<and> (x + y) mod 2 \<noteq> 0) xs),
      xp @ map (\<lambda>x. [corner d x y 0 0, corner d x y 0 1, corner d x y 1 0, corner d x y 1 1])
            (filter (\<lambda>x. seeds d x y \<and> (x + y) mod 2 = 0) xs))"
  by (induction xs arbitrary: zp xp) (simp_all add: plaq_step_def build_plaq_eq)

lemma foldl_rows:
  "foldl (\<lambda>acc y. foldl (plaq_step d y) acc xs) (zp, xp) ys =
     (zp @ map (\<lambda>(x, y). [corner d x y 0 0, corner d x y 1 0, corner d x y 0 1, corner d x y 1 1])
            (filter (\<lambda>(x, y). seeds d x y \<and> (x + y) mod 2 \<noteq> 0)
               (concat (map (\<lambda>y. map (\<lambda>x. (x, y)) xs) ys))),
      xp @ map (\<lambda>(x, y). [corner d x y 0 0, corner d x y 0 1, corner d x y 1 0, corner d x y 1 1])
            (filter (\<lambda>(x, y). seeds d x y \<and> (x + y) mod 2 = 0)
               (concat (map (\<lambda>y. map (\<lambda>x. (x, y)) xs) ys))))"
  by (induction ys arbitrary: zp xp) (simp_all add: foldl_plaq_step filter_map comp_def)

lemma length_filter_grid:
  "length (filter P (concat (map (\<lambda>y. map (\<lambda>x. (x, y)) xs) ys))) =
     sum_list (map (\<lambda>y. length (filter (\<lambda>x. P (x, y)) xs)) ys)"
  by (induction ys) (simp_all add: filter_map comp_def)

lemma range_split3: "1 \<le> d \<Longrightarrow> py_range (-1) d = (-1) # [0..d - 2] @ [d - 1]"
proof -
  assume d: "1 \<le> d"
  have "[-1..d - 1] = (-1) # [0..d - 1]" using d by (simp add: upto_rec1)
  also have "[0..d - 1] = [0..d - 2] @ [d - 1]" using d upto_rec2[of 0 "d - 1"] by simp
  finally show ?thesis by (simp add: py_range_def)
qed

lemma seeds_mid_row:
  assumes "0 \<le> y" "y \<le> d - 2"
  shows "seeds d (-1) y = even y"
    and "seeds d (d - 1) y = odd y"
    and "x \<in> set [0..d - 2] \<Longrightarrow> seeds d x y"
  using assms by (auto simp: seeds_def in_range_def odd_iff_mod_2_eq_one)

lemma seeds_top_row:
  assumes "1 \<le> d"
  shows "seeds d (-1) (-1) = False"
    and "seeds d (d - 1) (-1) = False"
    and "x \<in> set [0..d - 2] \<Longrightarrow> seeds d x (-1) = odd x"
  using assms by (auto simp: seeds_def in_range_def odd_iff_mod_2_eq_one)

lemma seeds_bottom_row:
  assumes "1 \<le> d"
  shows "seeds d (-1) (d - 1) = False"
    and "seeds d (d - 1) (d - 1) = False"
    and "x \<in> set [0..d - 2] \<Longrightarrow> seeds d x (d - 1) = even x"
  using assms by (auto simp: seeds_def in_range_def odd_iff_mod_2_eq_one)

text \<open>A row of the lattice, with a further test Q on the column.\<close>

lemma row_mid:
  assumes "1 \<le> d" "0 \<le> y" "y \<le> d - 2"
  shows "length (filter (\<lambda>x. seeds d x y \<and> Q x) (py_range (-1) d)) =
         (if even y \<and> Q (-1) then 1 else 0) + length (filter Q [0..d - 2])
         + (if odd y \<and> Q (d - 1) then 1 else 0)"
proof -
  have mid: "filter (\<lambda>x. seeds d x y \<and> Q x) [0..d - 2] = filter Q [0..d - 2]"
    by (rule filter_cong) (simp_all add: seeds_mid_row(3)[OF assms(2,3)])
  show ?thesis
    by (simp add: range_split3[OF assms(1)] mid seeds_mid_row(1,2)[OF assms(2,3)])
qed

lemma row_top:
  assumes "1 \<le> d"
  shows "length (filter (\<lambda>x. seeds d x (-1) \<and> Q x) (py_range (-1) d)) =
         length (filter (\<lambda>x. odd x \<and> Q x) [0..d - 2])"
proof -
  have "filter (\<lambda>x. seeds d x (-1) \<and> Q x) [0..d - 2] = filter (\<lambda>x. odd x \<and> Q x) [0..d - 2]"
    by (rule filter_cong) (simp_all add: seeds_top_row(3)[OF assms])
  then show ?thesis
    by (simp add: range_split3[OF assms] seeds_top_row(1,2)[OF assms])
qed

lemma row_bottom:
  assumes "1 \<le> d"
  shows "length (filter (\<lambda>x. seeds d x (d - 1) \<and> Q x) (py_range (-1) d)) =
         length (filter (\<lambda>x. even x \<and> Q x) [0..d - 2])"
proof -
  have "filter (\<lambda>x. seeds d x (d - 1) \<and> Q x) [0..d - 2] = filter (\<lambda>x. even x \<and> Q x) [0..d - 2]"
    by (rule filter_cong) (simp_all add: seeds_bottom_row(3)[OF assms])
  then show ?thesis
    by (simp add: range_split3[OF assms] seeds_bottom_row(1,2)[OF assms])
qed

lemma sum_list_const_on:
  "(\<And>y. y \<in> set ys \<Longrightarrow> f y = (c::nat)) \<Longrightarrow> sum_list (map f ys) = length ys * c"
  by (induction ys) simp_all

lemma grid_count:
  assumes "1 \<le> d"
  shows "length (filter (\<lambda>(x, y). seeds d x y \<and> Q x y) (coords d)) =
         length (filter (\<lambda>x. seeds d x (-1) \<and> Q x (-1)) (py_range (-1) d))
         + sum_list (map (\<lambda>y. length (filter (\<lambda>x. seeds d x y \<and> Q x y) (py_range (-1) d))) [0..d - 2])
         + length (filter (\<lambda>x. seeds d x (d - 1) \<and> Q x (d - 1)) (py_range (-1) d))"
proof -
  let ?row = "\<lambda>y. length (filter (\<lambda>x. seeds d x y \<and> Q x y) (py_range (-1) d))"
  have "length (filter (\<lambda>(x, y). seeds d x y \<and> Q x y) (coords d)) = sum_list (map ?row (py_range (-1) d))"
    unfolding coords_def by (simp add: length_filter_grid)
  also have "\<dots> = ?row (-1) + sum_list (map ?row [0..d - 2]) + ?row (d - 1)"
    by (simp add: range_split3[OF assms])
  finally show ?thesis .
qed

lemma seeded_total:
  assumes "1 \<le> d"
  shows "int (length (filter (\<lambda>(x, y). seeds d x y) (coords d))) = d ^ 2 - 1"
proof -
  let ?row = "\<lambda>y. length (filter (\<lambda>x. seeds d x y) (py_range (-1) d))"
  have mid: "sum_list (map ?row [0..d - 2]) = length [0..d - 2] * nat d"
  proof (rule sum_list_const_on)
    fix y assume "y \<in> set [0..d - 2]"
    then have y: "0 \<le> y" "y \<le> d - 2" by simp_all
    show "?row y = nat d" using assms row_mid[OF assms y, of "\<lambda>x. True"] by (auto simp: nat_diff_distrib)
  qed
  have ends: "?row (-1) + ?row (d - 1) = length [0..d - 2]"
    using sum_length_filter_compl[of "\<lambda>x::int. odd x" "[0..d - 2]"]
      row_top[OF assms, of "\<lambda>x. True"] row_bottom[OF assms, of "\<lambda>x. True"] by simp
  have "length (filter (\<lambda>(x, y). seeds d x y) (coords d))
        = ?row (-1) + sum_list (map ?row [0..d - 2]) + ?row (d - 1)"
    using grid_count[OF assms, of "\<lambda>x y. True"] by simp
  then have "length (filter (\<lambda>(x, y). seeds d x y) (coords d))
        = length [0..d - 2] + length [0..d - 2] * nat d"
    using ends mid by linarith
  then have "int (length (filter (\<lambda>(x, y). seeds d x y) (coords d))) = (d - 1) + (d - 1) * d"
    using assms by simp
  then show ?thesis by (simp add: power2_eq_square algebra_simps)
qed

lemma count_even_run:
  "length (filter (\<lambda>x::int. even (x + c)) [a..a + 2 * int k - 1]) = k"
proof (induction k)
  case 0
  then show ?case by simp
next
  case (Suc k)
  have "[a..a + 2 * int (Suc k) - 1] = [a..(a + 2 * int k + 1)]" by (simp add: algebra_simps)
  also have "\<dots> = [a..a + 2 * int k - 1] @ [a + 2 * int k..a + 2 * int k + 1]"
    using upto_split1[of a "a + 2 * int k" "a + 2 * int k + 1"] by simp
  also have "[a + 2 * int k..a + 2 * int k + 1] = [a + 2 * int k, a + 2 * int k + 1]"
    by (simp add: upto_rec1)
  finally have split: "[a..a + 2 * int (Suc k) - 1] = [a..a + 2 * int k - 1] @ [a + 2 * int k, a + 2 * int k + 1]" .
  show ?case unfolding split using Suc by auto
qed

lemma count_odd_run:
  "length (filter (\<lambda>x::int. odd (x + c)) [a..a + 2 * int k - 1]) = k"
  using count_even_run[of "c + 1" a k] by (simp add: add.assoc[symmetric])

lemma odd_range:
  assumes "1 \<le> d" "odd d"
  shows "[0..d - 2] = [0..0 + 2 * int (nat ((d - 1) div 2)) - 1]"
proof -
  have "2 * int (nat ((d - 1) div 2)) = d - 1" using assms by (auto elim!: oddE)
  then show ?thesis by simp
qed

lemma get_plaquettes_closed:
  "get_plaquettes d =
     (map (\<lambda>(x, y). [corner d x y 0 0, corner d x y 1 0, corner d x y 0 1, corner d x y 1 1])
        (filter (\<lambda>(x, y). seeds d x y \<and> (x + y) mod 2 \<noteq> 0) (coords d)),
      map (\<lambda>(x, y). [corner d x y 0 0, corner d x y 0 1, corner d x y 1 0, corner d x y 1 1])
        (filter (\<lambda>(x, y). seeds d x y \<and> (x + y) mod 2 = 0) (coords d)))"
  unfolding get_plaquettes_def coords_def by (simp only: foldl_rows append_Nil)

lemma length_zplaqs:
  "length (fst (get_plaquettes d)) = length (filter (\<lambda>(x, y). seeds d x y \<and> odd (x + y)) (coords d))"
  by (simp only: get_plaquettes_closed even_iff_mod_2_eq_zero fst_conv length_map)

lemma length_xplaqs:
  "length (snd (get_plaquettes d)) = length (filter (\<lambda>(x, y). seeds d x y \<and> even (x + y)) (coords d))"
  by (simp only: get_plaquettes_closed even_iff_mod_2_eq_zero snd_conv length_map)

lemma plaq_total:
  assumes "1 \<le> d"
  shows "int (length (snd (get_plaquettes d))) + int (length (fst (get_plaquettes d))) = d ^ 2 - 1"
proof -
  have "filter (\<lambda>(x, y). seeds d x y \<and> odd (x + y)) (coords d)
        = filter (\<lambda>p. \<not> (case p of (x, y) \<Rightarrow> even (x + y))) (filter (\<lambda>(x, y). seeds d x y) (coords d))"
    by (simp add: case_prod_unfold conj_commute)
  moreover have "filter (\<lambda>(x, y). seeds d x y \<and> even (x + y)) (coords d)
        = filter (\<lambda>p. (case p of (x, y) \<Rightarrow> even (x + y))) (filter (\<lambda>(x, y). seeds d x y) (coords d))"
    by (simp add: case_prod_unfold conj_commute)
  ultimately have "length (snd (get_plaquettes d)) + length (fst (get_plaquettes d))
     = length (filter (\<lambda>(x, y). seeds d x y) (coords d))"
    unfolding length_zplaqs length_xplaqs by (simp only: sum_length_filter_compl)
  then show ?thesis using seeded_total[OF assms] by linarith
qed

lemma xcount_odd:
  assumes "1 \<le> d" "odd d"
  shows "int (length (snd (get_plaquettes d))) = (d ^ 2 - 1) div 2"
proof -
  let ?k = "nat ((d - 1) div 2)"
  let ?row = "\<lambda>y. length (filter (\<lambda>x. seeds d x y \<and> even (x + y)) (py_range (-1) d))"
  have k: "2 * int ?k = d - 1" using assms by (auto elim!: oddE)
  have len: "length [0..d - 2] = 2 * ?k" using k assms by (simp add: nat_eq_iff)
  have mid: "sum_list (map ?row [0..d - 2]) = length [0..d - 2] * ?k"
  proof (rule sum_list_const_on)
    fix y assume "y \<in> set [0..d - 2]"
    then have y: "0 \<le> y" "y \<le> d - 2" by simp_all
    have "length (filter (\<lambda>x. even (x + y)) [0..d - 2]) = ?k"
      unfolding odd_range[OF assms] by (rule count_even_run)
    then show "?row y = ?k"
      using assms(2) row_mid[OF assms(1) y, of "\<lambda>x. even (x + y)"] by auto
  qed
  have "filter (\<lambda>x::int. odd x \<and> even (x + (-1))) [0..d - 2] = filter (\<lambda>x. odd (x + 0)) [0..d - 2]"
    by (rule filter_cong) auto
  then have top: "?row (-1) = ?k"
    using row_top[OF assms(1), of "\<lambda>x. even (x + (-1))"] count_odd_run[of 0 0 ?k]
    unfolding odd_range[OF assms] by simp
  have "filter (\<lambda>x::int. even x \<and> even (x + (d - 1))) [0..d - 2] = filter (\<lambda>x. even (x + 0)) [0..d - 2]"
    using assms(2) by (intro filter_cong) auto
  then have bot: "?row (d - 1) = ?k"
    using row_bottom[OF assms(1), of "\<lambda>x. even (x + (d - 1))"] count_even_run[of 0 0 ?k]
    unfolding odd_range[OF assms] by simp
  have "length (snd (get_plaquettes d)) = ?k + 2 * ?k * ?k + ?k"
    unfolding length_xplaqs grid_count[OF assms(1), of "\<lambda>x y. even (x + y)"] mid top bot len ..
  then have L: "int (length (snd (get_plaquettes d))) = 2 * int ?k + 2 * (int ?k * int ?k)"
    by simp
  define m where "m = int ?k"
  have dm: "d = 2 * m + 1" using k by (simp add: m_def)
  have "d ^ 2 - 1 = 2 * (2 * m + 2 * (m * m))"
    unfolding dm by (simp add: power2_eq_square algebra_simps)
  then show ?thesis using L by (simp add: m_def)
qed

lemma zcount_odd:
  assumes "1 \<le> d" "odd d"
  shows "int (length (fst (get_plaquettes d))) = (d ^ 2 - 1) div 2"
proof -
  have "even (d ^ 2 - 1)" using assms(2) by simp
  then have "2 * ((d ^ 2 - 1) div 2) = d ^ 2 - 1" by simp
  then show ?thesis using plaq_total[OF assms(1)] xcount_odd[OF assms] by linarith
qed

section \<open>Facts about the string primitives and the decoding loops\<close>

lemma split_sp_nonempty: "split_sp s \<noteq> []"
  by (induction s) (auto split: list.splits)

lemma split_sp_fields_no_space: "f \<in> set (split_sp s) \<Longrightarrow> CHR '' '' \<notin> set f"
proof (induction s arbitrary: f)
  case Nil
  then show ?case by simp
next
  case (Cons c cs)
  obtain w ws where sp: "split_sp cs = w # ws" using split_sp_nonempty[of cs] by (cases "split_sp cs") auto
  show ?case using Cons.prems Cons.IH[of f] Cons.IH[of w] by (auto simp: sp split: if_splits)
qed

lemma split_sp_prefix:
  "CHR '' '' \<notin> set a \<Longrightarrow> split_sp (a @ CHR '' '' # rest) = a # split_sp rest"
  by (induction a) auto

lemma split_sp_single: "CHR '' '' \<notin> set a \<Longrightarrow> split_sp a = [a]"
  by (induction a) auto

lemma split_join:
  "fs \<noteq> [] \<Longrightarrow> (\<And>f. f \<in> set fs \<Longrightarrow> CHR '' '' \<notin> set f) \<Longrightarrow> split_sp (join_sp fs) = fs"
proof (induction fs rule: join_sp.induct)
  case 1
  then show ?case by simp
next
  case (2 f)
  then show ?case by (simp add: split_sp_single)
next
  case (3 f g fs)
  then show ?case by (simp add: split_sp_prefix)
qed

lemma length_every_second: "length (every_second xs) = (length xs + 1) div 2"
  by (induction xs rule: every_second.induct) simp_all

lemma set_every_second: "set (every_second xs) \<subseteq> set xs"
  by (induction xs rule: every_second.induct) auto

lemma butlast_rows:
  "rs \<noteq> [] \<Longrightarrow> butlast (concat (map (\<lambda>r. r @ '' '') rs)) = join_sp rs"
proof (induction rs rule: join_sp.induct)
  case 1
  then show ?case by simp
next
  case (2 f)
  then show ?case by (simp add: butlast_append)
next
  case (3 f g fs)
  then show ?case by (simp add: butlast_append)
qed

lemma efoldl_append:
  "(\<And>x acc. x \<in> set xs \<Longrightarrow> f acc x = Inr (acc @ h x)) \<Longrightarrow>
   efoldl f acc xs = Inr (acc @ concat (map h xs))"
  by (induction xs arbitrary: acc) simp_all

lemma corner_bounds:
  assumes "corner d x y dy dx = Some q"
  shows "0 \<le> q \<and> q < d ^ 2"
proof -
  define a where "a = x + dx"
  define b where "b = y + dy"
  have ab: "0 \<le> a" "a < d" "0 \<le> b" "b < d" and q: "q = a + d * b"
    using assms by (auto simp: corner_def in_range_def a_def b_def split: if_splits)
  have d: "0 < d" using ab by linarith
  have "d * b \<le> d * (d - 1)" using ab d by (intro mult_left_mono) auto
  then have "q \<le> (d - 1) + d * (d - 1)" using ab q by linarith
  also have "\<dots> = d ^ 2 - 1" by (simp add: power2_eq_square algebra_simps)
  finally have "q < d ^ 2" by simp
  moreover have "0 \<le> d * b" using ab d by simp
  ultimately show ?thesis using ab q by simp
qed

lemma plaq_slots_in_range:
  assumes "plaq \<in> set (fst (get_plaquettes d)) \<union> set (snd (get_plaquettes d))" "Some q \<in> set plaq"
  shows "0 \<le> q \<and> q < d ^ 2"
  using assms unfolding get_plaquettes_closed by (auto dest: sym[THEN corner_bounds])

lemma py_index_ok: "0 \<le> i \<Longrightarrow> i < int (length xs) \<Longrightarrow> py_index xs i = Inr (xs ! nat i)"
  by (simp add: py_index_def)

lemma py_index_neg:
  "i < 0 \<Longrightarrow> - int (length xs) \<le> i \<Longrightarrow> py_index xs i = Inr (xs ! nat (i + int (length xs)))"
  by (simp add: py_index_def Let_def)

lemma int_of_char_binary: "c = CHR ''0'' \<or> c = CHR ''1'' \<Longrightarrow> int_of_char c = Inr (bit_of c)"
  by (auto simp: int_of_char_def bit_of_def)

lemma efoldl_total:
  "(\<And>x acc. x \<in> set xs \<Longrightarrow> \<exists>acc'. f acc x = Inr acc') \<Longrightarrow> \<exists>r. efoldl f acc xs = Inr r"
proof (induction xs arbitrary: acc)
  case Nil
  then show ?case by simp
next
  case (Cons x xs)
  obtain acc' where "f acc x = Inr acc'" using Cons.prems[of x acc] by auto
  then show ?case using Cons.IH[of acc'] Cons.prems by auto
qed

lemma plaq_parity_ok:
  assumes "binary rd" "\<And>q. Some q \<in> set plaq \<Longrightarrow> 0 \<le> q \<and> q < int (length rd)"
  shows "\<exists>p. plaq_parity rd plaq = Inr p"
  unfolding plaq_parity_def
proof (rule efoldl_total)
  fix x acc assume x: "x \<in> set plaq"
  show "\<exists>acc'. (case x of None \<Rightarrow> Inr acc
          | Some q' \<Rightarrow> (case py_index rd q' of Inl e \<Rightarrow> Inl e
               | Inr c \<Rightarrow> (case int_of_char c of Inl e \<Rightarrow> Inl e | Inr b \<Rightarrow> Inr (acc + b)))) = Inr acc'"
  proof (cases x)
    case None
    then show ?thesis by simp
  next
    case (Some q)
    then have r: "0 \<le> q" "q < int (length rd)" using assms(2)[of q] x by auto
    then have "rd ! nat q \<in> set rd" by simp
    then have "rd ! nat q = CHR ''0'' \<or> rd ! nat q = CHR ''1''"
      using assms(1) by (auto simp: binary_def list_all_iff)
    then show ?thesis using Some r by (simp add: py_index_ok int_of_char_binary)
  qed
qed

lemma final_syndrome_acc:
  assumes "\<And>plaq. plaq \<in> set plaqs \<Longrightarrow> \<exists>p. plaq_parity rd plaq = Inr p"
  shows "\<exists>fs. efoldl (\<lambda>full_syndrome plaq. case plaq_parity rd plaq of
                Inl e \<Rightarrow> Inl e
              | Inr parity \<Rightarrow> Inr (str_bit (parity mod 2) @ full_syndrome)) acc plaqs = Inr fs
           \<and> length fs = length acc + length plaqs \<and> (binary acc \<longrightarrow> binary fs)"
  using assms
proof (induction plaqs arbitrary: acc)
  case Nil
  then show ?case by simp
next
  case (Cons plaq plaqs)
  obtain p where p: "plaq_parity rd plaq = Inr p" using Cons.prems[of plaq] by auto
  have "\<exists>fs. efoldl (\<lambda>full_syndrome plaq. case plaq_parity rd plaq of
                Inl e \<Rightarrow> Inl e
              | Inr parity \<Rightarrow> Inr (str_bit (parity mod 2) @ full_syndrome)) (str_bit (p mod 2) @ acc) plaqs = Inr fs
           \<and> length fs = length (str_bit (p mod 2) @ acc) + length plaqs
           \<and> (binary (str_bit (p mod 2) @ acc) \<longrightarrow> binary fs)"
    by (rule Cons.IH) (simp add: Cons.prems)
  then show ?case by (auto simp: p str_bit_def binary_def)
qed

lemma final_syndrome_ok:
  assumes "\<And>plaq. plaq \<in> set plaqs \<Longrightarrow> \<exists>p. plaq_parity rd plaq = Inr p"
  shows "\<exists>fs. final_syndrome rd plaqs = Inr fs \<and> length fs = length plaqs \<and> binary fs"
  using final_syndrome_acc[OF assms, of plaqs "[]"] by (simp add: final_syndrome_def binary_def)

lemma binary_no_space: "binary f \<Longrightarrow> CHR '' '' \<notin> set f"
proof
  assume b: "binary f" and m: "CHR '' '' \<in> set f"
  from b have "\<forall>c\<in>set f. c = CHR ''0'' \<or> c = CHR ''1''"
    unfolding binary_def list_all_iff .
  with m have "CHR '' '' = CHR ''0'' \<or> CHR '' '' = CHR ''1''" by (rule bspec[rotated])
  then show False by simp
qed

lemma inspected_slots_in_range:
  assumes "laid_out self" "plaq \<in> set (inspected_plaqs self)" "Some q \<in> set plaq"
  shows "0 \<le> q \<and> q < (self_d self) ^ 2"
proof -
  have "plaq \<in> set (fst (get_plaquettes (self_d self))) \<union> set (snd (get_plaquettes (self_d self)))"
    using assms(1,2) by (auto simp: laid_out_def inspected_plaqs_def Let_def split: if_splits)
  then show ?thesis using assms(3) by (rule plaq_slots_in_range)
qed

lemma length_ancilla_fields:
  assumes "1 \<le> T" "int (length (split_sp string)) = 2 * T + 1"
  shows "length (ancilla_fields self string) = nat T"
proof -
  have len: "length (split_sp string) = 2 * nat T + 1" using assms by linarith
  have "length (every_second (drop 2 (split_sp string))) = nat T"
    using assms(1) by (simp add: length_every_second len)
  moreover have "length (every_second (drop 1 (split_sp string))) = nat T"
    by (simp add: length_every_second len)
  ultimately show ?thesis by (simp add: ancilla_fields_def Let_def)
qed

lemma syndrome_list_ok:
  assumes "laid_out self" "wellformed_shot self string"
  shows "\<exists>fs. final_syndrome (rev (hd (split_sp string))) (inspected_plaqs self) = Inr fs
           \<and> syndrome_list self string = Inr (fs # ancilla_fields self string)
           \<and> length fs = length (inspected_plaqs self) \<and> binary fs"
proof -
  let ?rd = "rev (hd (split_sp string))"
  have wf: "1 \<le> self_T self" "int (length (split_sp string)) = 2 * self_T self + 1"
    "int (length (hd (split_sp string))) = (self_d self) ^ 2" "binary (hd (split_sp string))"
    "list_all (\<lambda>f. length f = length (inspected_plaqs self) \<and> binary f) (ancilla_fields self string)"
    using assms(2) by (simp_all add: wellformed_shot_def Let_def)
  have rd: "binary ?rd" "int (length ?rd) = (self_d self) ^ 2"
    using wf(3,4) by (simp_all add: binary_def)
  have "\<exists>p. plaq_parity ?rd plaq = Inr p" if "plaq \<in> set (inspected_plaqs self)" for plaq
    using rd inspected_slots_in_range[OF assms(1) that] by (intro plaq_parity_ok) auto
  then obtain fs where fs: "final_syndrome ?rd (inspected_plaqs self) = Inr fs"
    "length fs = length (inspected_plaqs self)" "binary fs"
    using final_syndrome_ok[of "inspected_plaqs self" ?rd] by blast
  have ne: "ancilla_fields self string \<noteq> []"
    using length_ancilla_fields[OF wf(1,2), of self] wf(1) by auto
  have nosp: "CHR '' '' \<notin> set f" if "f \<in> set (ancilla_fields self string)" for f
    using wf(5) that by (auto simp: list_all_iff binary_no_space)
  have "split_sp (fs @ '' '' @ join_sp (ancilla_fields self string)) = fs # ancilla_fields self string"
    using split_sp_prefix[OF binary_no_space[OF fs(3)]] split_join[OF ne nosp] by simp
  then show ?thesis using fs by (simp add: syndrome_list_def Let_def)
qed

lemma cell_at:
  assumes "- int (length rows) \<le> i" "i < int (length rows)" "0 \<le> j"
    "\<And>r. r \<in> set rows \<Longrightarrow> j < int (length r)"
  shows "cell rows i j = Inr (rows ! nat (if i < 0 then i + int (length rows) else i) ! nat j)"
proof -
  let ?k = "if i < 0 then i + int (length rows) else i"
  have k: "0 \<le> ?k" "?k < int (length rows)" using assms(1,2) by auto
  then have row: "py_index rows i = Inr (rows ! nat ?k)" by (simp add: py_index_def Let_def)
  have "rows ! nat ?k \<in> set rows" using k by (intro nth_mem) linarith
  then have "j < int (length (rows ! nat ?k))" by (rule assms(4))
  then show ?thesis using assms(3) by (simp add: cell_def row py_index_ok)
qed

lemma cell_exists:
  assumes "- int (length rows) \<le> i" "i < int (length rows)" "0 \<le> j"
    "\<And>r. r \<in> set rows \<Longrightarrow> j < int (length r)"
  shows "\<exists>c. cell rows i j = Inr c"
  using cell_at[OF assms] by blast


lemma change_at_ok:
  assumes "1 \<le> self_T self" "int (length rows) = self_T self + 1" "0 \<le> t" "t \<le> self_T self"
    "0 \<le> j" "\<And>r. r \<in> set rows \<Longrightarrow> j < int (length r)"
  shows "\<exists>b. change_at self rows t j = Inr b"
proof -
  have c: "\<exists>c. cell rows i j = Inr c" if "- self_T self - 1 \<le> i" "i \<le> self_T self" for i
    using that assms(2) by (intro cell_exists assms(5,6)) auto
  have nz: "\<exists>b. cell_nonzero rows i j = Inr b" if "- self_T self - 1 \<le> i" "i \<le> self_T self" for i
    using c[OF that] by (auto simp: cell_nonzero_def)
  have df: "\<exists>b. cells_differ rows i i' j = Inr b"
    if "- self_T self - 1 \<le> i" "i \<le> self_T self" "- self_T self - 1 \<le> i'" "i' \<le> self_T self" for i i'
    using c[OF that(1,2)] c[OF that(3,4)] by (auto simp: cells_differ_def)
  have l3: "\<exists>b. last3_change rows t j = Inr b" if "t = self_T self" "2 \<le> t"
  proof -
    have "\<exists>c. cell rows (- t - 1) j = Inr c" by (rule c) (use that in simp_all)
    moreover have "\<exists>c. cell rows (- t - 1 + 1) j = Inr c" by (rule c) (use that in simp_all)
    moreover have "\<exists>c. cell rows (- t - 1 + 2) j = Inr c" by (rule c) (use that in simp_all)
    ultimately obtain c0 c1 c2 where "cell rows (- t - 1) j = Inr c0"
      "cell rows (- t - 1 + 1) j = Inr c1" "cell rows (- t - 1 + 2) j = Inr c2"
      by blast
    then show ?thesis by (simp add: last3_change_def py_range_def upto_rec1)
  qed
  show ?thesis
  proof (cases "self_resets self")
    case True
    show ?thesis
    proof (cases "t = 0")
      case True
      have "\<exists>b. cell_nonzero rows (- 1) j = Inr b" by (rule nz) (use assms(1) in simp_all)
      then show ?thesis using \<open>self_resets self\<close> True by (simp add: change_at_def)
    next
      case False
      have "\<exists>b. cells_differ rows (- t) (- t - 1) j = Inr b"
        by (rule df) (use assms(1,3,4) in simp_all)
      then show ?thesis using \<open>self_resets self\<close> False by (simp add: change_at_def)
    qed
  next
    case nores: False
    consider (a) "t \<le> 1" "t \<noteq> self_T self" | (b) "t \<le> 1" "t = self_T self"
      | (c) "1 < t" "t = self_T self" | (d) "1 < t" "t \<noteq> self_T self"
      by linarith
    then show ?thesis
    proof cases
      case a
      have "\<exists>b. cell_nonzero rows (- t - 1) j = Inr b" by (rule nz) (use assms(1,3,4) in simp_all)
      then show ?thesis using nores a by (simp add: change_at_def)
    next
      case b
      have "\<exists>b. cells_differ rows (- t - 1) (- t) j = Inr b"
        by (rule df) (use assms(1,3,4) in simp_all)
      then show ?thesis using nores b by (simp add: change_at_def)
    next
      case c
      have "\<exists>b. last3_change rows t j = Inr b" by (rule l3) (use c in simp_all)
      then show ?thesis using nores c by (simp add: change_at_def)
    next
      case d
      have "\<exists>b. cells_differ rows (- t - 1) (- t + 1) j = Inr b"
        by (rule df) (use assms(1,3,4) d in simp_all)
      then show ?thesis using nores d by (simp add: change_at_def)
    qed
  qed
qed

lemma length_py_range: "length (py_range 0 n) = nat n"
  by (simp add: py_range_def)

lemma nth_py_range: "0 \<le> k \<Longrightarrow> k < n \<Longrightarrow> py_range 0 n ! nat k = k"
  by (simp add: py_range_def)

lemma set_py_range: "set (py_range 0 n) = {k. 0 \<le> k \<and> k < n}"
  by (auto simp: py_range_def)

lemma change_str_single: "change_str b = [if b then CHR ''1'' else CHR ''0'']"
  by (simp add: change_str_def)

lemma changes_of_rows:
  assumes "rows \<noteq> []"
    and ok: "\<And>t j. t \<in> set (py_range 0 (int (length rows))) \<Longrightarrow>
               j \<in> set (py_range 0 (int (length (hd rows)))) \<Longrightarrow> \<exists>b. change_at self rows t j = Inr b"
  shows "changes_of self rows =
         Inr (join_sp (map (\<lambda>t. map (\<lambda>j. if projr (change_at self rows t j) then CHR ''1'' else CHR ''0'')
                                  (py_range 0 (int (length (hd rows)))))
                        (py_range 0 (int (length rows)))))"
proof -
  let ?ts = "py_range 0 (int (length rows))"
  let ?js = "py_range 0 (int (length (hd rows)))"
  let ?row = "\<lambda>t. map (\<lambda>j. if projr (change_at self rows t j) then CHR ''1'' else CHR ''0'') ?js"
  let ?inner = "\<lambda>t syndrome_changes j. case change_at self rows t j of
                            Inl e \<Rightarrow> Inl e
                          | Inr change \<Rightarrow> Inr (syndrome_changes @ change_str change)"
  have inner: "efoldl (?inner t) acc ?js = Inr (acc @ ?row t)" if t: "t \<in> set ?ts" for t acc
  proof -
    have "efoldl (?inner t) acc ?js =
          Inr (acc @ concat (map (\<lambda>j. change_str (projr (change_at self rows t j))) ?js))"
    proof (rule efoldl_append)
      fix x a assume "x \<in> set ?js"
      then obtain b where "change_at self rows t x = Inr b" using ok[OF t] by blast
      then show "?inner t a x = Inr (a @ change_str (projr (change_at self rows t x)))" by simp
    qed
    moreover have "concat (map (\<lambda>j. change_str (projr (change_at self rows t j))) ?js) = ?row t"
      by (induction ?js) (simp_all add: change_str_single)
    ultimately show ?thesis by simp
  qed
  have outer: "efoldl (\<lambda>syndrome_changes t.
                case efoldl (?inner t) syndrome_changes ?js of
                  Inl e \<Rightarrow> Inl e
                | Inr syndrome_changes' \<Rightarrow> Inr (syndrome_changes' @ '' ''))
             [] ?ts = Inr ([] @ concat (map (\<lambda>t. ?row t @ '' '') ?ts))"
    by (rule efoldl_append) (simp add: inner)
  have ne: "map ?row ?ts \<noteq> []" using assms(1) by (simp add: py_range_def)
  have "concat (map (\<lambda>t. ?row t @ '' '') ?ts) = concat (map (\<lambda>r. r @ '' '') (map ?row ?ts))"
    by (simp add: comp_def)
  then have "butlast (concat (map (\<lambda>t. ?row t @ '' '') ?ts)) = join_sp (map ?row ?ts)"
    using butlast_rows[OF ne] by simp
  then show ?thesis unfolding changes_of_def Let_def outer by simp
qed

lemma changes_of_detection_rows:
  assumes "rows \<noteq> []"
    and "\<And>t j. t \<in> set (py_range 0 (int (length rows))) \<Longrightarrow>
               j \<in> set (py_range 0 (int (length (hd rows)))) \<Longrightarrow> \<exists>b. change_at self rows t j = Inr b"
  shows "changes_of self rows = Inr (join_sp (detection_rows self rows))"
  unfolding detection_rows_def using assms by (rule changes_of_rows)

lemma detection_rows_shape:
  "length (detection_rows self rows) = length rows"
  "r \<in> set (detection_rows self rows) \<Longrightarrow> length r = length (hd rows)"
  "r \<in> set (detection_rows self rows) \<Longrightarrow> CHR '' '' \<notin> set r"
  by (auto simp: detection_rows_def length_py_range)

lemma detection_rows_nth:
  assumes "0 \<le> t" "t < int (length rows)" "0 \<le> j" "j < int (length (hd rows))"
  shows "detection_rows self rows ! nat t ! nat j =
         (if projr (change_at self rows t j) then CHR ''1'' else CHR ''0'')"
proof -
  have t: "nat t < length (py_range 0 (int (length rows)))" using assms(1,2) by (simp add: length_py_range)
  have j: "nat j < length (py_range 0 (int (length (hd rows))))" using assms(3,4) by (simp add: length_py_range)
  show ?thesis
    unfolding detection_rows_def
    by (simp only: nth_map[OF t] nth_map[OF j] nth_py_range[OF assms(1,2)] nth_py_range[OF assms(3,4)])
qed

lemma decode_ok:
  assumes "laid_out self" "wellformed_shot self string"
  shows "\<exists>rows. syndrome_list self string = Inr rows
           \<and> (\<exists>fs. final_syndrome (rev (hd (split_sp string))) (inspected_plaqs self) = Inr fs
                  \<and> rows = fs # ancilla_fields self string)
           \<and> int (length rows) = self_T self + 1
           \<and> (\<forall>r\<in>set rows. length r = length (inspected_plaqs self))
           \<and> (\<forall>t j. 0 \<le> t \<and> t \<le> self_T self \<and> 0 \<le> j \<and> j < int (length (inspected_plaqs self))
                  \<longrightarrow> (\<exists>b. change_at self rows t j = Inr b))
           \<and> string2changes self string = Inr (join_sp (detection_rows self rows))
           \<and> split_sp (join_sp (detection_rows self rows)) = detection_rows self rows"
proof -
  have wf: "1 \<le> self_T self" "int (length (split_sp string)) = 2 * self_T self + 1"
    "list_all (\<lambda>f. length f = length (inspected_plaqs self) \<and> binary f) (ancilla_fields self string)"
    using assms(2) by (simp_all add: wellformed_shot_def Let_def)
  obtain fs where fs: "syndrome_list self string = Inr (fs # ancilla_fields self string)"
    "length fs = length (inspected_plaqs self)"
    using syndrome_list_ok[OF assms] by blast
  have ffs: "final_syndrome (rev (hd (split_sp string))) (inspected_plaqs self) = Inr fs"
    using syndrome_list_ok[OF assms] fs(1) by auto
  define rows where "rows = fs # ancilla_fields self string"
  have len: "int (length rows) = self_T self + 1"
    using length_ancilla_fields[OF wf(1,2), of self] wf(1) by (simp add: rows_def)
  have w: "length r = length (inspected_plaqs self)" if "r \<in> set rows" for r
    using that fs(2) wf(3) by (auto simp: rows_def list_all_iff)
  have hd: "length (hd rows) = length (inspected_plaqs self)" using fs(2) by (simp add: rows_def)
  have ne: "rows \<noteq> []" by (simp add: rows_def)
  have ok: "\<exists>b. change_at self rows t j = Inr b"
    if "0 \<le> t" "t \<le> self_T self" "0 \<le> j" "j < int (length (inspected_plaqs self))" for t j
    using wf(1) len that(1,2,3)
  proof (rule change_at_ok)
    fix r assume "r \<in> set rows"
    then show "j < int (length r)" using w that(4) by simp
  qed
  have ch: "changes_of self rows = Inr (join_sp (detection_rows self rows))"
  proof (rule changes_of_detection_rows[OF ne])
    fix t j assume "t \<in> set (py_range 0 (int (length rows)))" "j \<in> set (py_range 0 (int (length (hd rows))))"
    then show "\<exists>b. change_at self rows t j = Inr b"
      using len hd by (intro ok) (simp_all add: set_py_range)
  qed
  have s2c: "string2changes self string = Inr (join_sp (detection_rows self rows))"
    using fs(1) ch by (simp add: string2changes_def trims_def Let_def rows_def)
  have dne: "detection_rows self rows \<noteq> []"
    using detection_rows_shape(1)[of self rows] ne by auto
  have sp: "split_sp (join_sp (detection_rows self rows)) = detection_rows self rows"
    using dne detection_rows_shape(3) by (rule split_join)
  have "syndrome_list self string = Inr rows" using fs(1) by (simp add: rows_def)
  moreover have "\<exists>fs. final_syndrome (rev (hd (split_sp string))) (inspected_plaqs self) = Inr fs
                  \<and> rows = fs # ancilla_fields self string"
    using ffs by (simp add: rows_def)
  ultimately show ?thesis
    using len w ok s2c sp by blast
qed

lemma laid_out_new_code: "1 \<le> d \<Longrightarrow> laid_out (new_code d T basis resets)"
  by (simp add: laid_out_def new_code_def)

lemma add_bit_ok:
  assumes "binary rd" "0 \<le> i" "i < int (length rd)"
  shows "add_bit z rd i = Inr ((z + bit_of (rd ! nat i)) mod 2)"
proof -
  have "rd ! nat i \<in> set rd" using assms(2,3) by simp
  then have "rd ! nat i = CHR ''0'' \<or> rd ! nat i = CHR ''1''"
    using assms(1) unfolding binary_def list_all_iff by (rule bspec[rotated])
  then have "int_of_char (rd ! nat i) = Inr (bit_of (rd ! nat i))" by (rule int_of_char_binary)
  then show ?thesis using assms(2,3) by (simp add: add_bit_def py_index_ok)
qed

lemma mod2_step: "((z + a) mod 2 + b) mod 2 = (z + (a + b)) mod (2::int)"
  by (simp add: mod_add_left_eq add.assoc)

lemma logical_loop:
  assumes "binary rd"
    and "\<And>j. j \<in> set js \<Longrightarrow> 0 \<le> f0 j \<and> f0 j < int (length rd)"
    and "\<And>j. j \<in> set js \<Longrightarrow> 0 \<le> f1 j \<and> f1 j < int (length rd)"
    and "\<And>Z j. j \<in> set js \<Longrightarrow>
           step Z j = (case add_bit (fst Z) rd (f0 j) of
                         Inl e \<Rightarrow> Inl e
                       | Inr z0 \<Rightarrow> (case add_bit (snd Z) rd (f1 j) of
                             Inl e \<Rightarrow> Inl e
                           | Inr z1 \<Rightarrow> Inr (z0, z1)))"
    and "z0 mod 2 = z0" "z1 mod 2 = z1"
  shows "efoldl step (z0, z1) js =
         Inr ((z0 + sum_list (map (\<lambda>j. bit_of (rd ! nat (f0 j))) js)) mod 2,
              (z1 + sum_list (map (\<lambda>j. bit_of (rd ! nat (f1 j))) js)) mod 2)"
  using assms(2-)
proof (induction js arbitrary: z0 z1)
  case Nil
  then show ?case by simp
next
  case (Cons j js)
  have s: "step (z0, z1) j = Inr ((z0 + bit_of (rd ! nat (f0 j))) mod 2, (z1 + bit_of (rd ! nat (f1 j))) mod 2)"
    using Cons.prems(1)[of j] Cons.prems(2)[of j] Cons.prems(3)[of j "(z0, z1)"]
    by (simp add: add_bit_ok[OF assms(1)])
  have "efoldl step ((z0 + bit_of (rd ! nat (f0 j))) mod 2, (z1 + bit_of (rd ! nat (f1 j))) mod 2) js =
        Inr (((z0 + bit_of (rd ! nat (f0 j))) mod 2 + sum_list (map (\<lambda>j. bit_of (rd ! nat (f0 j))) js)) mod 2,
             ((z1 + bit_of (rd ! nat (f1 j))) mod 2 + sum_list (map (\<lambda>j. bit_of (rd ! nat (f1 j))) js)) mod 2)"
    by (rule Cons.IH) (simp_all add: Cons.prems)
  then show ?case by (simp add: s mod2_step)
qed

lemma row_index_bounds:
  assumes "0 \<le> j" "j < (d::int)"
  shows "0 \<le> j * d \<and> j * d < d ^ 2" "0 \<le> (j + 1) * d - 1 \<and> (j + 1) * d - 1 < d ^ 2"
    "0 \<le> d ^ 2 - 1 - j \<and> d ^ 2 - 1 - j < d ^ 2" "0 \<le> j \<and> j < d ^ 2"
proof -
  have d: "0 < d" using assms by linarith
  have a: "j * d \<le> (d - 1) * d" using assms d by (intro mult_right_mono) simp_all
  have b: "0 \<le> j * d" using assms d by simp
  have c: "d \<le> d * d" using d by (simp add: mult_le_cancel_left1)
  have sq: "d ^ 2 = d * d" by (simp add: power2_eq_square)
  have e: "(d - 1) * d = d * d - d" by (simp add: algebra_simps)
  have f: "(j + 1) * d = j * d + d" by (simp add: algebra_simps)
  show "0 \<le> j * d \<and> j * d < d ^ 2" using a b d unfolding sq e by linarith
  show "0 \<le> (j + 1) * d - 1 \<and> (j + 1) * d - 1 < d ^ 2" using a b d unfolding sq e f by linarith
  show "0 \<le> d ^ 2 - 1 - j \<and> d ^ 2 - 1 - j < d ^ 2" using assms c unfolding sq by linarith
  show "0 \<le> j \<and> j < d ^ 2" using assms c unfolding sq by linarith
qed

section \<open>Facts about the construction\<close>

lemma code_qubit_basis: "code_qubit (s\<lparr>self_basis := b\<rparr>) = code_qubit s"
  by (simp add: code_qubit_def)

lemma code_bit_basis: "code_bit (s\<lparr>self_basis := b\<rparr>) = code_bit s"
  by (simp add: code_bit_def)

lemma cx_layer_basis: "cx_layer (s\<lparr>self_basis := b\<rparr>) em = cx_layer s em"
  by (intro ext) (simp add: cx_layer_def code_qubit_basis cong: sum.case_cong option.case_cong)

lemma measure_step_basis: "measure_step (s\<lparr>self_basis := b\<rparr>) em final = measure_step s em final"
  by (intro ext) (simp add: measure_step_def cong: sum.case_cong)

lemma round_gates_basis: "round_gates (s\<lparr>self_basis := b\<rparr>) em final = round_gates s em final"
  by (simp add: round_gates_def cx_layer_basis measure_step_basis cong: sum.case_cong)

lemma syndrome_measurement_basis:
  "syndrome_measurement (s\<lparr>self_basis := b\<rparr>, em) final =
     map_sum id (\<lambda>st. ((fst st)\<lparr>self_basis := b\<rparr>, snd st)) (syndrome_measurement (s, em) final)"
  by (simp add: syndrome_measurement_def Let_def round_gates_basis split: sum.splits cong: sum.case_cong)

lemma syndrome_measurement_object:
  "syndrome_measurement (s, em) final = Inr (s', em') \<Longrightarrow> s' = s\<lparr>self_T := self_T s + 1\<rparr>"
  by (auto simp: syndrome_measurement_def Let_def split: sum.splits)

lemma rounds_loop_basis:
  "efoldl (\<lambda>st _. syndrome_measurement st False) (s\<lparr>self_basis := b\<rparr>, em) (xs :: int list) =
     map_sum id (\<lambda>st. ((fst st)\<lparr>self_basis := b\<rparr>, snd st))
       (efoldl (\<lambda>st _. syndrome_measurement st False) (s, em) xs)"
proof (induction xs arbitrary: s em)
  case Nil
  then show ?case by simp
next
  case (Cons x xs)
  show ?case
  proof (cases "syndrome_measurement (s, em) False")
    case (Inl e)
    then show ?thesis by (simp add: syndrome_measurement_basis)
  next
    case (Inr st)
    obtain s1 em1 where st: "st = (s1, em1)" by (cases st)
    show ?thesis using Inr Cons.IH[of s1 em1] by (simp add: syndrome_measurement_basis st)
  qed
qed

lemma rounds_loop_object:
  "efoldl (\<lambda>st _. syndrome_measurement st False) (s, em) (xs :: int list) = Inr (s', em') \<Longrightarrow>
   s' = s\<lparr>self_T := self_T s + int (length xs)\<rparr>"
proof (induction xs arbitrary: s em)
  case Nil
  then show ?case by simp
next
  case (Cons x xs)
  show ?case
  proof (cases "syndrome_measurement (s, em) False")
    case (Inl e)
    then show ?thesis using Cons.prems by simp
  next
    case (Inr st)
    obtain s1 em1 where st: "st = (s1, em1)" by (cases st)
    have s1: "s1 = s\<lparr>self_T := self_T s + 1\<rparr>"
      using Inr unfolding st by (rule syndrome_measurement_object)
    have "s' = s1\<lparr>self_T := self_T s1 + int (length xs)\<rparr>"
      using Cons.prems Inr by (intro Cons.IH[of s1 em1]) (simp add: st)
    then show ?thesis by (simp add: s1)
  qed
qed

lemma preparation_basis:
  "b \<noteq> ''z'' \<Longrightarrow> b' \<noteq> ''z'' \<Longrightarrow>
   preparation (s\<lparr>self_basis := b\<rparr>) em = preparation (s\<lparr>self_basis := b'\<rparr>) em"
  by (simp add: preparation_def logical_z_def code_qubit_basis cong: sum.case_cong)

lemma preparation_nonempty:
  "self_basis s \<noteq> ''z'' \<Longrightarrow> preparation s em = Inr em' \<Longrightarrow> code_qubit s \<noteq> []"
  by (auto simp: preparation_def on_register_def)

lemma readout_total:
  "self_basis s \<noteq> ''x'' \<or> code_qubit s \<noteq> [] \<Longrightarrow> \<exists>em'. readout s em = Inr em'"
  by (auto simp: readout_def on_register_def)

lemma build_circuits_basis:
  assumes "b \<noteq> ''z''"
  shows "map_sum id (\<lambda>st. (fst st)\<lparr>self_basis := ''x''\<rparr>) (build_circuits (s\<lparr>self_basis := b\<rparr>) T em)
         = map_sum id fst (build_circuits (s\<lparr>self_basis := ''x''\<rparr>) T em)"
proof (cases "preparation (s\<lparr>self_basis := ''x''\<rparr>) em")
  case (Inl e)
  then show ?thesis
    using preparation_basis[OF assms, of "''x''" s em] by (simp add: build_circuits_def)
next
  case prep: (Inr em1)
  have prepb: "preparation (s\<lparr>self_basis := b\<rparr>) em = Inr em1"
    using prep preparation_basis[OF assms, of "''x''" s em] by simp
  have ne: "code_qubit s \<noteq> []"
    using preparation_nonempty[OF _ prep] by (simp add: code_qubit_basis)
  let ?loop = "\<lambda>s. efoldl (\<lambda>st _. syndrome_measurement st False) (s, em1) (py_range 0 (T - 1))"
  show ?thesis
  proof (cases "?loop s")
    case (Inl e)
    then show ?thesis
      by (simp add: build_circuits_def prep prepb rounds_loop_basis)
  next
    case loop: (Inr st)
    obtain s2 em2 where st: "st = (s2, em2)" by (cases st)
    have s2: "s2 = s\<lparr>self_T := self_T s + int (length (py_range 0 (T - 1)))\<rparr>"
      using loop unfolding st by (rule rounds_loop_object)
    show ?thesis
    proof (cases "T = 0")
      case True
      then show ?thesis
        by (simp add: build_circuits_def prep prepb py_range_def)
    next
      case T: False
      show ?thesis
      proof (cases "syndrome_measurement (s2, em2) True")
        case (Inl e)
        then show ?thesis
          using T by (simp add: build_circuits_def prep prepb rounds_loop_basis loop st
              syndrome_measurement_basis)
      next
        case fin: (Inr st3)
        obtain s3 em3 where st3: "st3 = (s3, em3)" by (cases st3)
        have s3: "s3 = s2\<lparr>self_T := self_T s2 + 1\<rparr>"
          using fin unfolding st3 by (rule syndrome_measurement_object)
        have ne3: "code_qubit s3 \<noteq> []" using ne by (simp add: s3 s2 code_qubit_def)
        obtain rb where rb: "readout (s3\<lparr>self_basis := b\<rparr>) em3 = Inr rb"
          using readout_total[of "s3\<lparr>self_basis := b\<rparr>" em3] ne3
          by (auto simp: code_qubit_basis)
        obtain rx where rx: "readout (s3\<lparr>self_basis := ''x''\<rparr>) em3 = Inr rx"
          using readout_total[of "s3\<lparr>self_basis := ''x''\<rparr>" em3] ne3
          by (auto simp: code_qubit_basis)
        show ?thesis
          using T by (simp add: build_circuits_def prep prepb rounds_loop_basis loop st
              syndrome_measurement_basis fin st3 rb rx)
      qed
    qed
  qed
qed

lemma build_circuits_object:
  assumes "build_circuits s T em = Inr (s', em')" "0 \<le> T"
  shows "s' = s\<lparr>self_T := self_T s + T\<rparr>"
proof -
  obtain em1 where prep: "preparation s em = Inr em1"
    using assms(1) by (auto simp: build_circuits_def split: sum.splits)
  obtain s2 em2 where loop:
    "efoldl (\<lambda>st _. syndrome_measurement st False) (s, em1) (py_range 0 (T - 1)) = Inr (s2, em2)"
    using assms(1) by (auto simp: build_circuits_def prep split: sum.splits)
  have s2: "s2 = s\<lparr>self_T := self_T s + int (length (py_range 0 (T - 1)))\<rparr>"
    using loop by (rule rounds_loop_object)
  show ?thesis
  proof (cases "T = 0")
    case True
    then show ?thesis using assms(1) by (simp add: build_circuits_def prep loop s2 py_range_def)
  next
    case False
    then obtain s3 em3 where fin: "syndrome_measurement (s2, em2) True = Inr (s3, em3)"
      and res: "s' = s3"
      using assms(1) by (auto simp: build_circuits_def prep loop split: sum.splits)
    have "s3 = s2\<lparr>self_T := self_T s2 + 1\<rparr>" using fin by (rule syndrome_measurement_object)
    then show ?thesis using False assms(2) by (simp add: res s2 length_py_range)
  qed
qed

lemma init_basis:
  assumes "basis \<noteq> ''z''"
  shows "map_sum id (\<lambda>st. (fst st)\<lparr>self_basis := ''x''\<rparr>) (init d T basis resets)
         = map_sum id fst (init d T ''x'' resets)"
proof (cases "num_xy d")
  case (Inl e)
  then show ?thesis by (simp add: init_def)
next
  case (Inr n)
  let ?s = "\<lparr>self_d = d, self_T = 0, self_basis = ''x'', self_resets = resets,
             self_zplaqs = fst (get_plaquettes d), self_xplaqs = snd (get_plaquettes d)\<rparr>"
  let ?em = "\<lparr>num_xy_reg = n, xplaq_bits = [], zplaq_bits = [], circuit_0 = [], circuit_1 = []\<rparr>"
  have b: "init d T basis resets = build_circuits (?s\<lparr>self_basis := basis\<rparr>) T ?em"
    and x: "init d T ''x'' resets = build_circuits (?s\<lparr>self_basis := ''x''\<rparr>) T ?em"
    using Inr by (simp_all add: init_def)
  show ?thesis unfolding b x using assms by (rule build_circuits_basis)
qed

lemma init_object:
  assumes "init d T basis resets = Inr (self, em)" "0 \<le> T"
  shows "self = new_code d T basis resets"
proof -
  obtain n where n: "num_xy d = Inr n"
    using assms(1) by (auto simp: init_def split: sum.splits)
  let ?s = "\<lparr>self_d = d, self_T = 0, self_basis = basis, self_resets = resets,
             self_zplaqs = fst (get_plaquettes d), self_xplaqs = snd (get_plaquettes d)\<rparr>"
  have bc: "build_circuits ?s T \<lparr>num_xy_reg = n, xplaq_bits = [], zplaq_bits = [],
                circuit_0 = [], circuit_1 = []\<rparr> = Inr (self, em)"
    using assms(1) by (simp add: init_def n)
  have "self = ?s\<lparr>self_T := self_T ?s + T\<rparr>"
    using bc assms(2) by (rule build_circuits_object)
  then show ?thesis by (simp add: new_code_def)
qed

section \<open>Properties of the plaquette layout\<close>

text \<open>
  Claim C7. Every seed coordinate \<open>(x, y)\<close> that passes the guard of line 131 yields one
  plaquette, in the order the loops visit the coordinates: it is an X-plaquette exactly
  when \<open>(x + y) mod 2 = 0\<close> and a Z-plaquette otherwise, and it holds the corners of
  the row-major 2x2 block under the permutation \<open>[0,1,2,3]\<close> for X and \<open>[0,2,1,3]\<close>
  for Z. This holds for every \<open>d\<close>, in particular for \<open>d \<ge> 1\<close>.
\<close>

theorem get_plaquettes_classification:
  "snd (get_plaquettes d) =
     map (\<lambda>(x, y). permuted [0, 1, 2, 3] (block2x2 d x y))
       (filter (\<lambda>(x, y). seeds d x y \<and> (x + y) mod 2 = 0) (coords d))
   \<and> fst (get_plaquettes d) =
     map (\<lambda>(x, y). permuted [0, 2, 1, 3] (block2x2 d x y))
       (filter (\<lambda>(x, y). seeds d x y \<and> (x + y) mod 2 \<noteq> 0) (coords d))"
  by (simp add: get_plaquettes_closed permuted_def block2x2_def)

text \<open>The layout of the distance-3 code, computed from the statement above.\<close>

lemma coords_3:
  "coords 3 = [(-1,-1),(0,-1),(1,-1),(2,-1), (-1,0),(0,0),(1,0),(2,0),
               (-1,1),(0,1),(1,1),(2,1), (-1,2),(0,2),(1,2),(2,2)]"
  by (simp add: coords_def py_range_def upto_rec1)

theorem get_plaquettes_classification_witness:
  "snd (get_plaquettes 3) =
     [[None, None, Some 1, Some 2], [Some 0, Some 1, Some 3, Some 4],
      [Some 4, Some 5, Some 7, Some 8], [Some 6, Some 7, None, None]]
   \<and> fst (get_plaquettes 3) =
     [[None, None, Some 0, Some 3], [Some 1, Some 4, Some 2, Some 5],
      [Some 3, Some 6, Some 4, Some 7], [Some 5, Some 8, None, None]]"
  using get_plaquettes_classification[of 3]
  by (simp add: coords_3 seeds_def in_range_def corner_def permuted_def block2x2_def)

text \<open>
  Claim C2. For every \<open>d \<ge> 1\<close> the number of X-plaquettes plus the number of
  Z-plaquettes returned by \<open>_get_plaquettes\<close> is \<open>d\<^sup>2 - 1\<close>.
\<close>

theorem plaquette_total:
  "1 \<le> d \<Longrightarrow>
   int (length (snd (get_plaquettes d))) + int (length (fst (get_plaquettes d))) = d ^ 2 - 1"
  by (rule plaq_total)

theorem plaquette_total_witness:
  "(1::int) \<le> 3 \<and>
   int (length (snd (get_plaquettes 3))) + int (length (fst (get_plaquettes 3))) = 3 ^ 2 - 1"
  using plaquette_total[of 3] by simp










section \<open>Properties of \<open>_string2changes\<close>\<close>

lemma cell_nonzero_Inr:
  "cell_nonzero rows i j = Inr b \<Longrightarrow> \<exists>a. cell rows i j = Inr a \<and> b = (a \<noteq> CHR ''0'')"
  by (auto simp: cell_nonzero_def split: sum.splits)

lemma cells_differ_Inr:
  "cells_differ rows i i' j = Inr b \<Longrightarrow>
   \<exists>a a'. cell rows i j = Inr a \<and> cell rows i' j = Inr a' \<and> b = (a \<noteq> a')"
  by (auto simp: cells_differ_def split: sum.splits)

lemma inspected_width_odd:
  assumes "laid_out self" "odd (self_d self)"
  shows "length (inspected_plaqs self) = length (opposite_plaqs self)"
proof -
  have d: "1 \<le> self_d self" using assms(1) by (simp add: laid_out_def)
  have "int (length (self_zplaqs self)) = int (length (self_xplaqs self))"
    using zcount_odd[OF d assms(2)] xcount_odd[OF d assms(2)] assms(1) by (simp add: laid_out_def)
  then show ?thesis by (simp add: inspected_plaqs_def opposite_plaqs_def Let_def)
qed

text \<open>Concrete code objects and shot strings, evaluated.\<close>

lemma shot_z_resets:
  "wellformed_shot (new_code 3 2 ''z'' True) ''000000001 1111 0001 1111 0100''"
  "string2changes (new_code 3 2 ''z'' True) ''000000001 1111 0001 1111 0100'' = Inr ''0100 0101 0000''"
  "syndrome_list (new_code 3 2 ''z'' True) ''000000001 1111 0001 1111 0100''
     = Inr [''0001'', ''0001'', ''0100'']"
  by code_simp+

lemma shot_x_no_resets:
  "wellformed_shot (new_code 3 3 ''x'' False) ''100000001 1011 0001 0010 1111 0110 1111''"
  "string2changes (new_code 3 3 ''x'' False) ''100000001 1011 0001 0010 1111 0110 1111''
     = Inr ''0110 0010 1101 1111''"
  "syndrome_list (new_code 3 3 ''x'' False) ''100000001 1011 0001 0010 1111 0110 1111''
     = Inr [''0110'', ''1011'', ''0010'', ''0110'']"
  by code_simp+

lemma shot_d2:
  "wellformed_shot (new_code 2 1 ''z'' True) ''0000 0 00''"
  "string2changes (new_code 2 1 ''z'' True) ''0000 0 00'' = Inr ''00 00''"
  "split_sp ''00 00'' = [''00'', ''00'']"
  "length (opposite_plaqs (new_code 2 1 ''z'' True)) = 1"
  "length (inspected_plaqs (new_code 2 1 ''z'' True)) = 2"
  by code_simp+

lemma inspected_d3:
  "inspected_plaqs (new_code 3 1 ''z'' True) = self_zplaqs (new_code 3 1 ''z'' True)"
  "inspected_plaqs (new_code 3 1 ''z'' True) \<noteq> opposite_plaqs (new_code 3 1 ''z'' True)"
  by code_simp+

lemma widths_d3:
  "length (inspected_plaqs (new_code 3 2 ''z'' True)) = 4"
  "length (inspected_plaqs (new_code 3 3 ''x'' False)) = 4"
  by code_simp+

text \<open>
  Claim C4. With resets enabled, for every well-formed shot string of \<open>T \<ge> 1\<close> rounds the
  record returned by \<open>_string2changes\<close> has exactly \<open>T + 1\<close> space-separated
  round-strings: the syndrome list it is computed from holds the final syndrome, derived
  from the transversal readout, followed by the \<open>T\<close> ancilla fields of the inspected basis.
\<close>

theorem detection_record_rounds_resets:
  assumes "laid_out self" and "wellformed_shot self string" and "self_resets self"
  shows "\<exists>out fs. string2changes self string = Inr out
           \<and> int (length (split_sp out)) = self_T self + 1
           \<and> final_syndrome (rev (hd (split_sp string))) (inspected_plaqs self) = Inr fs
           \<and> syndrome_list self string = Inr (fs # ancilla_fields self string)
           \<and> int (length (ancilla_fields self string)) = self_T self"
proof -
  obtain rows fs where r: "syndrome_list self string = Inr rows"
    "final_syndrome (rev (hd (split_sp string))) (inspected_plaqs self) = Inr fs"
    "rows = fs # ancilla_fields self string"
    "int (length rows) = self_T self + 1"
    "string2changes self string = Inr (join_sp (detection_rows self rows))"
    "split_sp (join_sp (detection_rows self rows)) = detection_rows self rows"
    using decode_ok[OF assms(1,2)] by blast
  have "int (length (split_sp (join_sp (detection_rows self rows)))) = self_T self + 1"
    using r(4,6) by (simp add: detection_rows_shape(1))
  moreover have "int (length (ancilla_fields self string)) = self_T self"
    using r(3,4) by simp
  ultimately show ?thesis using r(1,2,3,5) by blast
qed

theorem detection_record_rounds_resets_witness:
  "laid_out (new_code 3 2 ''z'' True)
   \<and> wellformed_shot (new_code 3 2 ''z'' True) ''000000001 1111 0001 1111 0100''
   \<and> self_resets (new_code 3 2 ''z'' True)
   \<and> (\<exists>out. string2changes (new_code 3 2 ''z'' True) ''000000001 1111 0001 1111 0100'' = Inr out
          \<and> int (length (split_sp out)) = 2 + 1)"
proof -
  have l: "laid_out (new_code 3 2 ''z'' True)" by (simp add: laid_out_new_code)
  have r: "self_resets (new_code 3 2 ''z'' True)" by (simp add: new_code_def)
  have T: "self_T (new_code 3 2 ''z'' True) = 2" by (simp add: new_code_def)
  show ?thesis
    using detection_record_rounds_resets[OF l shot_z_resets(1) r] l shot_z_resets(1) r
    unfolding T by blast
qed

text \<open>
  The test of line 319 compares the local \<open>basis\<close> with \<open>self.basis\<close>, from which
  line 267 has assigned it: no code object makes it true, and lines 320-321 run for
  none.
\<close>

lemma line_319_never_true: "\<not> trims self"
  by (simp add: trims_def)

text \<open>
  Claim C3, as amended. For every laid-out code object and every well-formed shot string,
  each round-string of the detection record has one character per plaquette of the
  preparation basis itself: the Z-plaquettes when \<open>basis\<close> is \<open>z\<close>, the X-plaquettes
  otherwise. For odd \<open>d\<close> the two collections have the same size, so the length then also
  equals the number of plaquettes of the opposite basis.
\<close>

theorem round_string_width:
  assumes "laid_out self" and "wellformed_shot self string"
  shows "\<exists>out. string2changes self string = Inr out
           \<and> list_all (\<lambda>r. length r = length (inspected_plaqs self)) (split_sp out)
           \<and> inspected_plaqs self
               = (if self_basis self = ''z'' then self_zplaqs self else self_xplaqs self)
           \<and> (odd (self_d self) \<longrightarrow>
                list_all (\<lambda>r. length r = length (opposite_plaqs self)) (split_sp out))"
proof -
  obtain rows fs where r: "rows = fs # ancilla_fields self string"
    "\<forall>r\<in>set rows. length r = length (inspected_plaqs self)"
    "string2changes self string = Inr (join_sp (detection_rows self rows))"
    "split_sp (join_sp (detection_rows self rows)) = detection_rows self rows"
    using decode_ok[OF assms(1,2)] by blast
  have hd: "length (hd rows) = length (inspected_plaqs self)" using r(1,2) by simp
  have w: "list_all (\<lambda>r. length r = length (inspected_plaqs self))
             (split_sp (join_sp (detection_rows self rows)))"
    unfolding r(4) list_all_iff using detection_rows_shape(2)[of _ self rows] hd by simp
  have "inspected_plaqs self
          = (if self_basis self = ''z'' then self_zplaqs self else self_xplaqs self)"
    by (simp add: inspected_plaqs_def Let_def)
  moreover have "list_all (\<lambda>r. length r = length (opposite_plaqs self))
             (split_sp (join_sp (detection_rows self rows)))" if "odd (self_d self)"
    using w inspected_width_odd[OF assms(1) that] by simp
  ultimately show ?thesis using r(3) w by blast
qed

theorem round_string_width_witness:
  "laid_out (new_code 3 2 ''z'' True)
   \<and> wellformed_shot (new_code 3 2 ''z'' True) ''000000001 1111 0001 1111 0100''
   \<and> odd (self_d (new_code 3 2 ''z'' True))
   \<and> (\<exists>out. string2changes (new_code 3 2 ''z'' True) ''000000001 1111 0001 1111 0100'' = Inr out
          \<and> list_all (\<lambda>r. length r = 4) (split_sp out)
          \<and> list_all (\<lambda>r. length r = length (opposite_plaqs (new_code 3 2 ''z'' True)))
               (split_sp out))"
proof -
  have l: "laid_out (new_code 3 2 ''z'' True)" by (simp add: laid_out_new_code)
  have d: "odd (self_d (new_code 3 2 ''z'' True))" by (simp add: new_code_def)
  show ?thesis
    using round_string_width[OF l shot_z_resets(1)] l shot_z_resets(1) d
    unfolding widths_d3(1) by blast
qed

text \<open>
  The claim as stated fails. For the distance-3 code prepared in the \<open>z\<close> basis the
  plaquettes inspected are the Z-plaquettes, those of the preparation basis, and they
  are not the X-plaquettes. For odd \<open>d\<close> the two collections still have the same size;
  for the distance-2 layout they do not: the round-strings have the 2 characters of the
  two Z-plaquettes, while the opposite basis has a single X-plaquette.
\<close>

theorem round_string_width_counterexample:
  "inspected_plaqs (new_code 3 1 ''z'' True) = self_zplaqs (new_code 3 1 ''z'' True)
   \<and> inspected_plaqs (new_code 3 1 ''z'' True) \<noteq> opposite_plaqs (new_code 3 1 ''z'' True)
   \<and> laid_out (new_code 2 1 ''z'' True)
   \<and> wellformed_shot (new_code 2 1 ''z'' True) ''0000 0 00''
   \<and> string2changes (new_code 2 1 ''z'' True) ''0000 0 00'' = Inr ''00 00''
   \<and> split_sp ''00 00'' = [''00'', ''00'']
   \<and> length ''00'' \<noteq> length (opposite_plaqs (new_code 2 1 ''z'' True))"
  using shot_d2 inspected_d3 by (simp add: laid_out_new_code)

text \<open>
  Claim C1. For every well-formed shot string (of \<open>T \<ge> 1\<close> rounds), every round \<open>t\<close> in
  \<open>0..T\<close> and every stabilizer index \<open>j\<close>, the character of the detection record for \<open>(t, j)\<close> is \<open>0\<close> or \<open>1\<close>, and it is
  \<open>1\<close> exactly when: with resets, at \<open>t = 0\<close>, \<open>syndrome_list[-1][j] != "0"\<close>; with resets, at
  \<open>t > 0\<close>, \<open>syndrome_list[-t][j] != syndrome_list[-t-1][j]\<close>; without resets, at a middle
  round \<open>1 < t < T\<close>, \<open>syndrome_list[-t-1][j] != syndrome_list[-t+1][j]\<close>.
\<close>

theorem detection_bit_regimes:
  assumes "laid_out self" and "wellformed_shot self string"
    and "0 \<le> t" and "t \<le> self_T self"
    and "0 \<le> j" and "j < int (length (inspected_plaqs self))"
  shows "\<exists>rows out bit.
           syndrome_list self string = Inr rows \<and> string2changes self string = Inr out
           \<and> cell (split_sp out) t j = Inr bit \<and> (bit = CHR ''0'' \<or> bit = CHR ''1'')
           \<and> (self_resets self \<and> t = 0 \<longrightarrow>
                (\<exists>a. cell rows (- 1) j = Inr a \<and> (bit = CHR ''1'') = (a \<noteq> CHR ''0'')))
           \<and> (self_resets self \<and> 0 < t \<longrightarrow>
                (\<exists>a b. cell rows (- t) j = Inr a \<and> cell rows (- t - 1) j = Inr b
                       \<and> (bit = CHR ''1'') = (a \<noteq> b)))
           \<and> (\<not> self_resets self \<and> 1 < t \<and> t < self_T self \<longrightarrow>
                (\<exists>a b. cell rows (- t - 1) j = Inr a \<and> cell rows (- t + 1) j = Inr b
                       \<and> (bit = CHR ''1'') = (a \<noteq> b)))"
proof -
  obtain rows fs where r: "syndrome_list self string = Inr rows"
    "rows = fs # ancilla_fields self string"
    "int (length rows) = self_T self + 1"
    "\<forall>r\<in>set rows. length r = length (inspected_plaqs self)"
    "\<forall>t j. 0 \<le> t \<and> t \<le> self_T self \<and> 0 \<le> j \<and> j < int (length (inspected_plaqs self))
                  \<longrightarrow> (\<exists>b. change_at self rows t j = Inr b)"
    "string2changes self string = Inr (join_sp (detection_rows self rows))"
    "split_sp (join_sp (detection_rows self rows)) = detection_rows self rows"
    using decode_ok[OF assms(1,2)] by blast
  obtain c where c: "change_at self rows t j = Inr c" using r(5) assms(3-6) by blast
  define bit where "bit = (if c then CHR ''1'' else CHR ''0'')"
  have hd: "length (hd rows) = length (inspected_plaqs self)" using r(2,4) by simp
  have tl: "t < int (length rows)" using r(3) assms(4) by simp
  have jl: "j < int (length (hd rows))" using hd assms(6) by simp
  have "cell (detection_rows self rows) t j
        = Inr (detection_rows self rows ! nat (if t < 0 then t + int (length (detection_rows self rows)) else t) ! nat j)"
  proof (rule cell_at)
    show "- int (length (detection_rows self rows)) \<le> t" using assms(3) by simp
    show "t < int (length (detection_rows self rows))" using tl by (simp add: detection_rows_shape(1))
    show "0 \<le> j" by (rule assms(5))
    fix q assume "q \<in> set (detection_rows self rows)"
    then show "j < int (length q)" using detection_rows_shape(2)[of q self rows] jl by simp
  qed
  then have cellbit: "cell (detection_rows self rows) t j = Inr bit"
    using assms(3) detection_rows_nth[OF assms(3) tl assms(5) jl, of self] c by (simp add: bit_def)
  have b1: "bit = CHR ''0'' \<or> bit = CHR ''1''" by (simp add: bit_def)
  have bc: "(bit = CHR ''1'') = c" by (simp add: bit_def)
  have g1: "\<exists>a. cell rows (- 1) j = Inr a \<and> (bit = CHR ''1'') = (a \<noteq> CHR ''0'')"
    if "self_resets self" "t = 0"
    using c that cell_nonzero_Inr[of rows "- 1" j c] by (simp add: change_at_def bc)
  have g2: "\<exists>a b. cell rows (- t) j = Inr a \<and> cell rows (- t - 1) j = Inr b
                       \<and> (bit = CHR ''1'') = (a \<noteq> b)"
    if "self_resets self" "0 < t"
    using c that cells_differ_Inr[of rows "- t" "- t - 1" j c] by (simp add: change_at_def bc)
  have g3: "\<exists>a b. cell rows (- t - 1) j = Inr a \<and> cell rows (- t + 1) j = Inr b
                       \<and> (bit = CHR ''1'') = (a \<noteq> b)"
    if "\<not> self_resets self" "1 < t" "t < self_T self"
    using c that cells_differ_Inr[of rows "- t - 1" "- t + 1" j c] by (simp add: change_at_def bc)
  have cellout: "cell (split_sp (join_sp (detection_rows self rows))) t j = Inr bit"
    using cellbit by (simp only: r(7))
  show ?thesis
    using r(1,6) cellout b1 g1 g2 g3 by blast
qed

theorem detection_bit_regimes_witness:
  "laid_out (new_code 3 2 ''z'' True)
   \<and> wellformed_shot (new_code 3 2 ''z'' True) ''000000001 1111 0001 1111 0100''
   \<and> 1 \<le> self_T (new_code 3 2 ''z'' True)
   \<and> 1 < int (length (inspected_plaqs (new_code 3 2 ''z'' True)))
   \<and> (\<exists>rows out bit.
         syndrome_list (new_code 3 2 ''z'' True) ''000000001 1111 0001 1111 0100'' = Inr rows
         \<and> string2changes (new_code 3 2 ''z'' True) ''000000001 1111 0001 1111 0100'' = Inr out
         \<and> cell (split_sp out) 1 1 = Inr bit
         \<and> (\<exists>a b. cell rows (- 1) 1 = Inr a \<and> cell rows (- 2) 1 = Inr b
                \<and> (bit = CHR ''1'') = (a \<noteq> b)))
   \<and> laid_out (new_code 3 3 ''x'' False)
   \<and> wellformed_shot (new_code 3 3 ''x'' False) ''100000001 1011 0001 0010 1111 0110 1111''
   \<and> 2 < self_T (new_code 3 3 ''x'' False)
   \<and> 0 < int (length (inspected_plaqs (new_code 3 3 ''x'' False)))
   \<and> (\<exists>rows out bit.
         syndrome_list (new_code 3 3 ''x'' False) ''100000001 1011 0001 0010 1111 0110 1111''
           = Inr rows
         \<and> string2changes (new_code 3 3 ''x'' False) ''100000001 1011 0001 0010 1111 0110 1111''
           = Inr out
         \<and> cell (split_sp out) 2 0 = Inr bit
         \<and> (\<exists>a b. cell rows (- 3) 0 = Inr a \<and> cell rows (- 1) 0 = Inr b
                \<and> (bit = CHR ''1'') = (a \<noteq> b)))"
proof -
  let ?A = "new_code 3 2 ''z'' True"
  let ?B = "new_code 3 3 ''x'' False"
  have lA: "laid_out ?A" and lB: "laid_out ?B" by (simp_all add: laid_out_new_code)
  have A: "self_resets ?A" "self_T ?A = 2" by (simp_all add: new_code_def)
  have B: "\<not> self_resets ?B" "self_T ?B = 3" by (simp_all add: new_code_def)
  have tA: "(1::int) \<le> self_T ?A" "(1::int) < int (length (inspected_plaqs ?A))"
    by (simp_all add: A widths_d3)
  have tB: "(2::int) \<le> self_T ?B" "(0::int) < int (length (inspected_plaqs ?B))"
    "2 < self_T ?B"
    by (simp_all add: B widths_d3)
  have wA: "\<exists>rows out bit.
         syndrome_list ?A ''000000001 1111 0001 1111 0100'' = Inr rows
         \<and> string2changes ?A ''000000001 1111 0001 1111 0100'' = Inr out
         \<and> cell (split_sp out) 1 1 = Inr bit
         \<and> (\<exists>a b. cell rows (- 1) 1 = Inr a \<and> cell rows (- 2) 1 = Inr b
                \<and> (bit = CHR ''1'') = (a \<noteq> b))"
    using detection_bit_regimes[OF lA shot_z_resets(1) _ tA(1) _ tA(2)] A(1) by simp blast
  have wB: "\<exists>rows out bit.
         syndrome_list ?B ''100000001 1011 0001 0010 1111 0110 1111'' = Inr rows
         \<and> string2changes ?B ''100000001 1011 0001 0010 1111 0110 1111'' = Inr out
         \<and> cell (split_sp out) 2 0 = Inr bit
         \<and> (\<exists>a b. cell rows (- 3) 0 = Inr a \<and> cell rows (- 1) 0 = Inr b
                \<and> (bit = CHR ''1'') = (a \<noteq> b))"
    using detection_bit_regimes[OF lB shot_x_no_resets(1) _ tB(1) _ tB(2)] B(1) tB(3) by simp blast
  show ?thesis
    using lA lB shot_z_resets(1) shot_x_no_resets(1) tA tB(2,3) wA wB by blast
qed

section \<open>Properties of \<open>string2raw_logicals\<close>\<close>

text \<open>
  Claim C8. For every shot string whose first field holds \<open>d\<^sup>2\<close> binary characters,
  \<open>string2raw_logicals\<close> returns the three characters \<open>"v0 v1"\<close>: the digit \<open>0\<close> or
  \<open>1\<close> of the bit \<open>v0\<close>, a space, and the digit of the bit \<open>v1\<close>, where on the reversed
  first field: for basis \<open>z\<close>, \<open>v0\<close> is the sum mod 2 of the bits at the top-row indices
  \<open>j\<close> and \<open>v1\<close> of those at the bottom-row indices \<open>d\<^sup>2 - 1 - j\<close>; for any other basis,
  in particular \<open>x\<close>, \<open>v0\<close> and \<open>v1\<close> are the sums mod 2 along the left column \<open>j * d\<close>
  and the right column \<open>(j + 1) * d - 1\<close>, with \<open>j\<close> in \<open>range(d)\<close>.
\<close>

theorem raw_logicals_parities:
  assumes "int (length (hd (split_sp string))) = (self_d self) ^ 2"
    and "binary (hd (split_sp string))"
  shows "\<exists>v0 v1. string2raw_logicals self string =
             Inr [if v0 = 1 then CHR ''1'' else CHR ''0'', CHR '' '',
                  if v1 = 1 then CHR ''1'' else CHR ''0'']
           \<and> (v0 = 0 \<or> v0 = 1) \<and> (v1 = 0 \<or> v1 = 1)
           \<and> (self_basis self = ''z'' \<longrightarrow>
                v0 = (\<Sum>j\<leftarrow>py_range 0 (self_d self).
                        bit_of (rev (hd (split_sp string)) ! nat j)) mod 2
                \<and> v1 = (\<Sum>j\<leftarrow>py_range 0 (self_d self).
                        bit_of (rev (hd (split_sp string)) ! nat ((self_d self) ^ 2 - 1 - j))) mod 2)
           \<and> (self_basis self \<noteq> ''z'' \<longrightarrow>
                v0 = (\<Sum>j\<leftarrow>py_range 0 (self_d self).
                        bit_of (rev (hd (split_sp string)) ! nat (j * self_d self))) mod 2
                \<and> v1 = (\<Sum>j\<leftarrow>py_range 0 (self_d self).
                        bit_of (rev (hd (split_sp string)) ! nat ((j + 1) * self_d self - 1))) mod 2)"
proof -
  define d where "d = self_d self"
  define rd where "rd = rev (hd (split_sp string))"
  have rd: "binary rd" "int (length rd) = d ^ 2"
    using assms by (simp_all add: rd_def d_def binary_def)
  have js: "0 \<le> j \<and> j < d" if "j \<in> set (py_range 0 d)" for j
    using that by (simp add: set_py_range)
  have chars: "str_bit (n mod 2) @ '' '' @ str_bit (k mod 2) =
      [if n mod 2 = 1 then CHR ''1'' else CHR ''0'', CHR '' '',
       if k mod 2 = 1 then CHR ''1'' else CHR ''0'']" for n k :: int
    by (simp add: str_bit_def)
  show ?thesis
  proof (cases "self_basis self = ''z''")
    case True
    have "efoldl (logical_step self rd) (0, 0) (py_range 0 d) =
          Inr ((0 + sum_list (map (\<lambda>j. bit_of (rd ! nat j)) (py_range 0 d))) mod 2,
               (0 + sum_list (map (\<lambda>j. bit_of (rd ! nat (d ^ 2 - 1 - j))) (py_range 0 d))) mod 2)"
    proof (rule logical_loop[OF rd(1)])
      fix j assume j: "j \<in> set (py_range 0 d)"
      show "0 \<le> j \<and> j < int (length rd)"
        using row_index_bounds(4)[of j d] js[OF j] rd(2) by simp
      show "0 \<le> d ^ 2 - 1 - j \<and> d ^ 2 - 1 - j < int (length rd)"
        using row_index_bounds(3)[of j d] js[OF j] rd(2) by simp
      fix Z
      show "logical_step self rd Z j =
            (case add_bit (fst Z) rd j of Inl e \<Rightarrow> Inl e
             | Inr z0 \<Rightarrow> (case add_bit (snd Z) rd (d ^ 2 - 1 - j) of Inl e \<Rightarrow> Inl e
                 | Inr z1 \<Rightarrow> Inr (z0, z1)))"
        using True by (simp add: logical_step_def Let_def flip: d_def)
    qed simp_all
    then have "string2raw_logicals self string =
          Inr (str_bit ((\<Sum>j\<leftarrow>py_range 0 d. bit_of (rd ! nat j)) mod 2) @ '' '' @
               str_bit ((\<Sum>j\<leftarrow>py_range 0 d. bit_of (rd ! nat (d ^ 2 - 1 - j))) mod 2))"
      by (simp add: string2raw_logicals_def Let_def rd_def[symmetric] d_def[symmetric])
    then have "string2raw_logicals self string =
          Inr [if (\<Sum>j\<leftarrow>py_range 0 d. bit_of (rd ! nat j)) mod 2 = 1
               then CHR ''1'' else CHR ''0'', CHR '' '',
               if (\<Sum>j\<leftarrow>py_range 0 d. bit_of (rd ! nat (d ^ 2 - 1 - j))) mod 2 = 1
               then CHR ''1'' else CHR ''0'']"
      by (simp only: chars)
    moreover have "\<And>n::int. n mod 2 = 0 \<or> n mod 2 = 1" by presburger
    ultimately show ?thesis using True unfolding rd_def d_def by blast
  next
    case False
    have "efoldl (logical_step self rd) (0, 0) (py_range 0 d) =
          Inr ((0 + sum_list (map (\<lambda>j. bit_of (rd ! nat (j * d))) (py_range 0 d))) mod 2,
               (0 + sum_list (map (\<lambda>j. bit_of (rd ! nat ((j + 1) * d - 1))) (py_range 0 d))) mod 2)"
    proof (rule logical_loop[OF rd(1)])
      fix j assume j: "j \<in> set (py_range 0 d)"
      show "0 \<le> j * d \<and> j * d < int (length rd)"
        using row_index_bounds(1)[of j d] js[OF j] rd(2) by simp
      show "0 \<le> (j + 1) * d - 1 \<and> (j + 1) * d - 1 < int (length rd)"
        using row_index_bounds(2)[of j d] js[OF j] rd(2) by simp
      fix Z
      show "logical_step self rd Z j =
            (case add_bit (fst Z) rd (j * d) of Inl e \<Rightarrow> Inl e
             | Inr z0 \<Rightarrow> (case add_bit (snd Z) rd ((j + 1) * d - 1) of Inl e \<Rightarrow> Inl e
                 | Inr z1 \<Rightarrow> Inr (z0, z1)))"
        using False by (simp add: logical_step_def Let_def flip: d_def)
    qed simp_all
    then have "string2raw_logicals self string =
          Inr (str_bit ((\<Sum>j\<leftarrow>py_range 0 d. bit_of (rd ! nat (j * d))) mod 2) @ '' '' @
               str_bit ((\<Sum>j\<leftarrow>py_range 0 d. bit_of (rd ! nat ((j + 1) * d - 1))) mod 2))"
      by (simp add: string2raw_logicals_def Let_def rd_def[symmetric] d_def[symmetric])
    then have "string2raw_logicals self string =
          Inr [if (\<Sum>j\<leftarrow>py_range 0 d. bit_of (rd ! nat (j * d))) mod 2 = 1
               then CHR ''1'' else CHR ''0'', CHR '' '',
               if (\<Sum>j\<leftarrow>py_range 0 d. bit_of (rd ! nat ((j + 1) * d - 1))) mod 2 = 1
               then CHR ''1'' else CHR ''0'']"
      by (simp only: chars)
    moreover have "\<And>n::int. n mod 2 = 0 \<or> n mod 2 = 1" by presburger
    ultimately show ?thesis using False unfolding rd_def d_def by blast
  qed
qed

lemma readout_d3:
  "int (length (hd (split_sp ''100000011 1011 0001''))) = 3 ^ 2"
  "binary (hd (split_sp ''100000011 1011 0001''))"
  "(\<Sum>j\<leftarrow>py_range 0 3. bit_of (rev (hd (split_sp ''100000011 1011 0001'')) ! nat j)) mod 2 = 0"
  "(\<Sum>j\<leftarrow>py_range 0 3.
      bit_of (rev (hd (split_sp ''100000011 1011 0001'')) ! nat (3 ^ 2 - 1 - j))) mod 2 = 1"
  "(\<Sum>j\<leftarrow>py_range 0 3.
      bit_of (rev (hd (split_sp ''100000011 1011 0001'')) ! nat (j * 3))) mod 2 = 1"
  "(\<Sum>j\<leftarrow>py_range 0 3.
      bit_of (rev (hd (split_sp ''100000011 1011 0001'')) ! nat ((j + 1) * 3 - 1))) mod 2 = 1"
  by code_simp+

text \<open>
  At \<open>d = 3\<close> the readout \<open>100000011\<close> is reversed to \<open>110000001\<close>: the top row
  \<open>110\<close> has parity 0 and the bottom row \<open>001\<close> parity 1, the left column \<open>100\<close> and
  the right column \<open>001\<close> parity 1 each.
\<close>

theorem raw_logicals_parities_witness:
  "int (length (hd (split_sp ''100000011 1011 0001''))) = (self_d (new_code 3 1 ''z'' True)) ^ 2
   \<and> binary (hd (split_sp ''100000011 1011 0001''))
   \<and> self_basis (new_code 3 1 ''z'' True) = ''z''
   \<and> string2raw_logicals (new_code 3 1 ''z'' True) ''100000011 1011 0001'' = Inr ''0 1''
   \<and> self_basis (new_code 3 1 ''x'' True) \<noteq> ''z''
   \<and> string2raw_logicals (new_code 3 1 ''x'' True) ''100000011 1011 0001'' = Inr ''1 1''"
proof -
  let ?s = "''100000011 1011 0001''"
  have z: "self_d (new_code 3 1 ''z'' True) = 3" "self_basis (new_code 3 1 ''z'' True) = ''z''"
    and x: "self_d (new_code 3 1 ''x'' True) = 3" "self_basis (new_code 3 1 ''x'' True) \<noteq> ''z''"
    by (simp_all add: new_code_def)
  have hz: "int (length (hd (split_sp ?s))) = (self_d (new_code 3 1 ''z'' True)) ^ 2"
    and hx: "int (length (hd (split_sp ?s))) = (self_d (new_code 3 1 ''x'' True)) ^ 2"
    unfolding z x by (rule readout_d3(1))+
  have wz: "string2raw_logicals (new_code 3 1 ''z'' True) ?s = Inr ''0 1''"
    using raw_logicals_parities[OF hz readout_d3(2)] unfolding z
    by (simp only: readout_d3(3,4)) simp
  have wx: "string2raw_logicals (new_code 3 1 ''x'' True) ?s = Inr ''1 1''"
    using raw_logicals_parities[OF hx readout_d3(2)] x(2) unfolding x(1)
    by (simp only: readout_d3(5,6)) simp
  show ?thesis using hz readout_d3(2) z(2) x(2) wz wx by blast
qed

section \<open>Properties of the logical supports\<close>

lemma support_shape:
  assumes "inj_on f (set (py_range 0 d))" "0 \<le> d"
  shows "int (length (map f (py_range 0 d))) = d \<and> distinct (map f (py_range 0 d))"
  using assms by (simp add: distinct_map length_py_range py_range_def)

lemma columns_disjoint:
  assumes "2 \<le> (d::int)"
  shows "j * d \<noteq> (j' + 1) * d - 1"
proof
  assume "j * d = (j' + 1) * d - 1"
  then have "d * (j' + 1 - j) = 1" by (simp add: algebra_simps)
  then have "d dvd 1" by (metis dvd_triv_left)
  then have "\<bar>d\<bar> = 1" by (simp only: zdvd1_eq)
  then show False using assms by simp
qed

lemma rows_disjoint:
  assumes "2 \<le> (d::int)" "0 \<le> j" "j < d" "0 \<le> j'" "j' < d"
  shows "j \<noteq> d ^ 2 - 1 - j'"
proof
  assume e: "j = d ^ 2 - 1 - j'"
  have sq: "d ^ 2 = d * d" by (simp add: power2_eq_square)
  have "2 * d \<le> d * d" using assms(1) by (intro mult_right_mono) simp_all
  then show False using e assms(2-5) unfolding sq by linarith
qed

text \<open>
  Claim C6, as amended. For every \<open>d \<ge> 1\<close> each of the four logical supports built in
  \<open>__init__\<close> (left and right columns for basis \<open>x\<close>, top and bottom rows for basis \<open>z\<close>)
  holds exactly \<open>d\<close> pairwise different qubit indices. For every \<open>d \<ge> 2\<close> the two
  supports of each basis are disjoint. For \<open>d = 1\<close> the two supports of each basis are
  the same single qubit \<open>0\<close>.
\<close>

theorem logical_supports:
  assumes "1 \<le> d"
  shows "list_all (\<lambda>s. int (length s) = d \<and> distinct s) (logicals_x d @ logicals_z d)
         \<and> (2 \<le> d \<longrightarrow> set (logicals_x d ! 0) \<inter> set (logicals_x d ! 1) = {}
                    \<and> set (logicals_z d ! 0) \<inter> set (logicals_z d ! 1) = {})
         \<and> (d = 1 \<longrightarrow> logicals_x d = [[0], [0]] \<and> logicals_z d = [[0], [0]])"
proof -
  have d0: "0 \<le> d" "d \<noteq> 0" using assms by simp_all
  have s1: "int (length (map (\<lambda>j. j * d) (py_range 0 d))) = d \<and> distinct (map (\<lambda>j. j * d) (py_range 0 d))"
    using d0 by (intro support_shape) (simp_all add: inj_on_def)
  have s2: "int (length (map (\<lambda>j. (j + 1) * d - 1) (py_range 0 d))) = d
            \<and> distinct (map (\<lambda>j. (j + 1) * d - 1) (py_range 0 d))"
    using d0 by (intro support_shape) (simp_all add: inj_on_def)
  have s3: "int (length (map (\<lambda>j. j) (py_range 0 d))) = d \<and> distinct (map (\<lambda>j. j) (py_range 0 d))"
    using d0 by (intro support_shape) (simp_all add: inj_on_def)
  have s4: "int (length (map (\<lambda>j. d ^ 2 - 1 - j) (py_range 0 d))) = d
            \<and> distinct (map (\<lambda>j. d ^ 2 - 1 - j) (py_range 0 d))"
    using d0 by (intro support_shape) (simp_all add: inj_on_def)
  have shape: "list_all (\<lambda>s. int (length s) = d \<and> distinct s) (logicals_x d @ logicals_z d)"
    using s1 s2 s3 s4 by (simp add: logicals_x_def logicals_z_def)
  have dx: "set (logicals_x d ! 0) \<inter> set (logicals_x d ! 1) = {}" if "2 \<le> d"
    using columns_disjoint[OF that] by (auto simp: logicals_x_def)
  have dz: "set (logicals_z d ! 0) \<inter> set (logicals_z d ! 1) = {}" if "2 \<le> d"
    using rows_disjoint[OF that] by (auto simp: logicals_z_def set_py_range)
  have one: "logicals_x d = [[0], [0]] \<and> logicals_z d = [[0], [0]]" if "d = 1"
    using that by (simp add: logicals_x_def logicals_z_def py_range_def)
  show ?thesis using shape dx dz one by blast
qed

theorem logical_supports_witness:
  "(1::int) \<le> 3 \<and> (2::int) \<le> 3
   \<and> list_all (\<lambda>s. int (length s) = 3 \<and> distinct s) (logicals_x 3 @ logicals_z 3)
   \<and> set (logicals_x 3 ! 0) \<inter> set (logicals_x 3 ! 1) = {}
   \<and> set (logicals_z 3 ! 0) \<inter> set (logicals_z 3 ! 1) = {}
   \<and> (1::int) \<le> 1 \<and> logicals_x 1 = [[0], [0]] \<and> logicals_z 1 = [[0], [0]]"
  using logical_supports[of 3] logical_supports[of 1] by simp

text \<open>
  The claim as stated fails at \<open>d = 1\<close>: the left and the right column are both the
  single qubit \<open>0\<close>, and so are the top and the bottom row.
\<close>

theorem logical_supports_counterexample:
  "logicals_x 1 ! 0 = [0] \<and> logicals_x 1 ! 1 = [0] \<and> logicals_z 1 ! 0 = [0] \<and> logicals_z 1 ! 1 = [0]
   \<and> set (logicals_x 1 ! 0) \<inter> set (logicals_x 1 ! 1) \<noteq> {}
   \<and> set (logicals_z 1 ! 0) \<inter> set (logicals_z 1 ! 1) \<noteq> {}"
  by (simp add: logicals_x_def logicals_z_def py_range_def)

section \<open>Properties of the construction\<close>

lemma init_examples:
  "map_sum id fst (init 3 1 ''y'' True) = Inr (new_code 3 1 ''y'' True)"
  "map_sum id fst (init (- 3) 1 ''z'' True) = Inr (new_code (- 3) 1 ''z'' True)"
  "init 1 1 ''x'' True = Inl CircuitError"
  by code_simp+

text \<open>
  Claim C9, as amended. The constructor validates neither \<open>d\<close> nor \<open>basis\<close> and has no
  configuration error. A basis string other than \<open>z\<close>, be it \<open>x\<close> or an invalid one, is
  never rejected for what it is: with it construction fails exactly when it fails with
  \<open>x\<close> for the same \<open>d\<close>, \<open>T\<close> and reset flag, and with the same error, which the
  circuit builder raises. Whenever construction succeeds, with \<open>T \<ge> 0\<close>, the object holds
  \<open>d\<close>, \<open>T\<close>, \<open>basis\<close> and the reset flag as they were given, whatever they are, and
  the layout computed from \<open>d\<close>.
\<close>

theorem construction_unvalidated:
  "(basis \<noteq> ''z'' \<longrightarrow>
      (\<forall>e. init d T basis resets = Inl e \<longleftrightarrow> init d T ''x'' resets = Inl e))
   \<and> (\<forall>self em. 0 \<le> T \<and> init d T basis resets = Inr (self, em) \<longrightarrow>
         self = new_code d T basis resets)"
proof (intro conjI impI allI)
  fix e
  assume b: "basis \<noteq> ''z''"
  have eq: "map_sum id (\<lambda>st. (fst st)\<lparr>self_basis := ''x''\<rparr>) (init d T basis resets)
         = map_sum id fst (init d T ''x'' resets)"
    using b by (rule init_basis)
  show "init d T basis resets = Inl e \<longleftrightarrow> init d T ''x'' resets = Inl e"
  proof
    assume "init d T basis resets = Inl e"
    then show "init d T ''x'' resets = Inl e"
      using eq by (cases "init d T ''x'' resets") simp_all
  next
    assume "init d T ''x'' resets = Inl e"
    then show "init d T basis resets = Inl e"
      using eq by (cases "init d T basis resets") simp_all
  qed
next
  fix self em
  assume "0 \<le> T \<and> init d T basis resets = Inr (self, em)"
  then show "self = new_code d T basis resets"
    using init_object[of d T basis resets self em] by simp
qed

theorem construction_unvalidated_witness:
  "''y'' \<noteq> ''z''
   \<and> init 1 1 ''x'' True = Inl CircuitError \<and> init 1 1 ''y'' True = Inl CircuitError
   \<and> (0::int) \<le> 1
   \<and> (\<exists>em. init 3 1 ''y'' True = Inr (new_code 3 1 ''y'' True, em))"
proof -
  have y: "''y'' \<noteq> ''z''" by simp
  have f: "init 1 1 ''y'' True = Inl CircuitError"
    using construction_unvalidated[of "''y''" 1 1 True] init_examples(3) y by blast
  obtain self em where s: "init 3 1 ''y'' True = Inr (self, em)"
    using init_examples(1) by (cases "init 3 1 ''y'' True") auto
  have "self = new_code 3 1 ''y'' True"
    using construction_unvalidated[of "''y''" 3 1 True] s by simp
  then show ?thesis using y f s init_examples(3) by simp
qed

text \<open>
  The claim as stated fails: constructing with the basis \<open>y\<close>, which is neither \<open>x\<close> nor
  \<open>z\<close>, returns an object whose \<open>basis\<close> is \<open>y\<close>, and so does constructing with the
  distance \<open>-3\<close>.
\<close>

theorem construction_counterexample:
  "map_sum id fst (init 3 1 ''y'' True) = Inr (new_code 3 1 ''y'' True)
   \<and> self_basis (new_code 3 1 ''y'' True) = ''y''
   \<and> map_sum id fst (init (- 3) 1 ''z'' True) = Inr (new_code (- 3) 1 ''z'' True)
   \<and> self_d (new_code (- 3) 1 ''z'' True) = - 3"
  using init_examples(1,2) by (simp add: new_code_def)

end
